theory Spec2Isabelle
  imports Complex_Main
begin

section \<open>Numbers\<close>

text \<open>
  A TypeScript \<open>number\<close> is a double of IEEE 754: a real number that the 64-bit format
  holds (\<open>Fin\<close>), or one of the three special values \<open>Infinity\<close>, \<open>-Infinity\<close> and
  \<open>NaN\<close>. \<open>undefined\<close>, which an out-of-range array read returns, is modelled by
  \<open>NaN\<close>: the program only ever uses such a value in arithmetic, where it behaves as
  \<open>NaN\<close>. The sign of zero is not kept: a division of a positive number by zero is
  \<open>Infinity\<close>.
\<close>

datatype number = Fin real | PInf | NInf | NaN

subsection \<open>Rounding\<close>

text \<open>
  The numbers of a binary format with a significand of \<open>p\<close> bits and exponents from
  \<open>emin\<close> to \<open>emax\<close>, subnormal numbers included, and the rounding of a real number to
  the nearest of them, ties to the even significand. A number of the format is kept; any
  other is rounded at the unit in the last place of its binade, and a result beyond the
  largest number of the format is an infinity.
\<close>

definition floats :: "nat \<Rightarrow> int \<Rightarrow> int \<Rightarrow> real set" where
  "floats p emin emax =
     {of_int m * 2 powr of_int e | m e.
        \<bar>m\<bar> < 2 ^ p \<and> emin - int p + 1 \<le> e \<and> e \<le> emax - int p + 1}"

definition roundHalfEven :: "real \<Rightarrow> int" where
  "roundHalfEven r =
     (let f = \<lfloor>r\<rfloor>
      in if r - of_int f < 1 / 2 then f
         else if 1 / 2 < r - of_int f then f + 1
         else if even f then f else f + 1)"

definition binade :: "int \<Rightarrow> real \<Rightarrow> int" where
  "binade emin x = max emin \<lfloor>log 2 \<bar>x\<bar>\<rfloor>"

definition ulp :: "nat \<Rightarrow> int \<Rightarrow> real \<Rightarrow> real" where
  "ulp p emin x = 2 powr of_int (binade emin x - int p + 1)"

definition roundMagnitude :: "nat \<Rightarrow> int \<Rightarrow> real \<Rightarrow> real" where
  "roundMagnitude p emin x = of_int (roundHalfEven (\<bar>x\<bar> / ulp p emin x)) * ulp p emin x"

definition roundNearest :: "nat \<Rightarrow> int \<Rightarrow> int \<Rightarrow> real \<Rightarrow> number" where
  "roundNearest p emin emax x =
     (if x \<in> floats p emin emax then Fin x
      else if 2 powr of_int (emax + 1) \<le> roundMagnitude p emin x
           then (if 0 < x then PInf else NInf)
           else Fin (sgn x * roundMagnitude p emin x))"

text \<open>The 64-bit format of a \<open>number\<close> and the 32-bit format of a \<open>Float32Array\<close>.\<close>

definition doubles :: "real set" where
  "doubles = floats 53 (- 1022) 1023"

definition toDouble :: "real \<Rightarrow> number" where
  "toDouble = roundNearest 53 (- 1022) 1023"

definition toFloat32 :: "real \<Rightarrow> number" where
  "toFloat32 = roundNearest 24 (- 126) 127"

subsection \<open>Arithmetic\<close>

text \<open>
  The operations of the language: on finite operands, the result over the reals rounded
  to a double; on the special values, as the language defines them.
\<close>

instantiation number :: "{plus, minus, uminus, times, inverse, ord}"
begin

fun uminus_number :: "number \<Rightarrow> number" where
  "uminus_number (Fin a) = Fin (- a)"
| "uminus_number PInf = NInf"
| "uminus_number NInf = PInf"
| "uminus_number NaN = NaN"

fun plus_number :: "number \<Rightarrow> number \<Rightarrow> number" where
  "plus_number (Fin a) (Fin b) = toDouble (a + b)"
| "plus_number NaN _ = NaN"
| "plus_number _ NaN = NaN"
| "plus_number PInf NInf = NaN"
| "plus_number NInf PInf = NaN"
| "plus_number PInf _ = PInf"
| "plus_number _ PInf = PInf"
| "plus_number NInf _ = NInf"
| "plus_number _ NInf = NInf"

definition minus_number :: "number \<Rightarrow> number \<Rightarrow> number" where
  "minus_number a b = a + (- b)"

fun times_number :: "number \<Rightarrow> number \<Rightarrow> number" where
  "times_number (Fin a) (Fin b) = toDouble (a * b)"
| "times_number NaN _ = NaN"
| "times_number _ NaN = NaN"
| "times_number PInf (Fin b) = (if b = 0 then NaN else if 0 < b then PInf else NInf)"
| "times_number NInf (Fin b) = (if b = 0 then NaN else if 0 < b then NInf else PInf)"
| "times_number (Fin a) PInf = (if a = 0 then NaN else if 0 < a then PInf else NInf)"
| "times_number (Fin a) NInf = (if a = 0 then NaN else if 0 < a then NInf else PInf)"
| "times_number PInf PInf = PInf"
| "times_number PInf NInf = NInf"
| "times_number NInf PInf = NInf"
| "times_number NInf NInf = PInf"

fun divide_number :: "number \<Rightarrow> number \<Rightarrow> number" where
  "divide_number (Fin a) (Fin b) =
     (if b \<noteq> 0 then toDouble (a / b)
      else if a = 0 then NaN else if 0 < a then PInf else NInf)"
| "divide_number NaN _ = NaN"
| "divide_number _ NaN = NaN"
| "divide_number (Fin a) PInf = Fin 0"
| "divide_number (Fin a) NInf = Fin 0"
| "divide_number PInf (Fin b) = (if 0 \<le> b then PInf else NInf)"
| "divide_number NInf (Fin b) = (if 0 \<le> b then NInf else PInf)"
| "divide_number PInf PInf = NaN"
| "divide_number PInf NInf = NaN"
| "divide_number NInf PInf = NaN"
| "divide_number NInf NInf = NaN"

definition inverse_number :: "number \<Rightarrow> number" where
  "inverse_number a = divide (Fin 1) a"

text \<open>The comparisons \<open><\<close> and \<open><=\<close> of the language: false whenever an operand is \<open>NaN\<close>.\<close>

fun less_number :: "number \<Rightarrow> number \<Rightarrow> bool" where
  "less_number (Fin a) (Fin b) = (a < b)"
| "less_number NaN _ = False"
| "less_number _ NaN = False"
| "less_number _ NInf = False"
| "less_number PInf _ = False"
| "less_number NInf _ = True"
| "less_number _ PInf = True"

fun less_eq_number :: "number \<Rightarrow> number \<Rightarrow> bool" where
  "less_eq_number (Fin a) (Fin b) = (a \<le> b)"
| "less_eq_number NaN _ = False"
| "less_eq_number _ NaN = False"
| "less_eq_number NInf _ = True"
| "less_eq_number _ PInf = True"
| "less_eq_number _ NInf = False"
| "less_eq_number PInf _ = False"

instance ..

end

text \<open>
  \<open>Math.sqrt\<close>, \<open>Math.exp\<close>, \<open>Math.round\<close> (which rounds halves upwards; its result is
  a double whenever its argument is) and \<open>Math.fround\<close>, the rounding to 32 bits of a
  store into a \<open>Float32Array\<close>. The language asks of \<open>Math.exp\<close> only an approximation
  (with \<open>exp 0 = 1\<close>); it is taken here to be rounded correctly.
\<close>

fun Math_sqrt :: "number \<Rightarrow> number" where
  "Math_sqrt (Fin a) = (if a < 0 then NaN else toDouble (sqrt a))"
| "Math_sqrt PInf = PInf"
| "Math_sqrt NInf = NaN"
| "Math_sqrt NaN = NaN"

fun Math_exp :: "number \<Rightarrow> number" where
  "Math_exp (Fin a) = toDouble (exp a)"
| "Math_exp PInf = PInf"
| "Math_exp NInf = Fin 0"
| "Math_exp NaN = NaN"

fun Math_round :: "number \<Rightarrow> number" where
  "Math_round (Fin a) = Fin (of_int \<lfloor>a + 1 / 2\<rfloor>)"
| "Math_round PInf = PInf"
| "Math_round NInf = NInf"
| "Math_round NaN = NaN"

fun Math_fround :: "number \<Rightarrow> number" where
  "Math_fround (Fin a) = toFloat32 a"
| "Math_fround PInf = PInf"
| "Math_fround NInf = NInf"
| "Math_fround NaN = NaN"


section \<open>Settings\<close>

text \<open>
  The fields of \<open>flow/settings.ts\<close> that the shared module reads, and their values: a
  decimal literal is the double nearest to it.
\<close>

record settings =
  smoothing :: real
  segmentLength :: number
  verticesPerLine :: nat
  speedScale :: number
  linesPerVisualization :: nat
  minSpeedThreshold :: number
  minWeightThreshold :: number
  flowProcessingQuanta :: number

definition settings :: settings where
  "settings =
     \<lparr> smoothing = 10,
       segmentLength = Fin 10,
       verticesPerLine = 100,
       speedScale = toDouble (1 / 10),
       linesPerVisualization = 4000,
       minSpeedThreshold = toDouble (1 / 1000),
       minWeightThreshold = toDouble (1 / 1000),
       flowProcessingQuanta = Fin 100 \<rparr>"

section \<open>Tracing a particle\<close>

type_synonym Field = "number \<Rightarrow> number \<Rightarrow> number \<times> number"

record StreamLineVertex =
  position :: "number \<times> number"
  time :: number

text \<open>
  The scaled speed \<open>v\<close> that one iteration of the loop of \<open>trace\<close> computes at \<open>(x, y)\<close>.
\<close>

definition scaledSpeed :: "settings \<Rightarrow> Field \<Rightarrow> number \<Rightarrow> number \<Rightarrow> number" where
  "scaledSpeed cfg f x y =
     (let (vx0, vy0) = f x y;
          vx = vx0 * speedScale cfg;
          vy = vy0 * speedScale cfg
      in Math_sqrt (vx * vx + vy * vy))"

text \<open>
  The \<open>for\<close> loop of \<open>trace\<close>, from iteration \<open>i\<close> on, with the values of the variables
  \<open>x\<close>, \<open>y\<close>, \<open>t\<close> and \<open>lineVertices\<close> at that point.
\<close>

function traceLoop ::
  "settings \<Rightarrow> Field \<Rightarrow> number \<Rightarrow> nat \<Rightarrow> number \<Rightarrow> number \<Rightarrow> number \<Rightarrow>
   StreamLineVertex list \<Rightarrow> StreamLineVertex list" where
  "traceLoop cfg f cellSize i x y t lineVertices =
     (if i < verticesPerLine cfg then
        (let (vx0, vy0) = f x y;
             vx = vx0 * speedScale cfg;
             vy = vy0 * speedScale cfg;
             v = Math_sqrt (vx * vx + vy * vy)
         in if v < minSpeedThreshold cfg then lineVertices
            else
              (let dx = vx / v;
                   dy = vy / v;
                   x' = x + dx * segmentLength cfg;
                   y' = y + dy * segmentLength cfg;
                   dt = segmentLength cfg / v;
                   t' = t + dt
               in traceLoop cfg f cellSize (i + 1) x' y' t'
                    (lineVertices @
                      [\<lparr> position = (x' * cellSize, y' * cellSize), time = t' \<rparr>])))
      else lineVertices)"
  by pat_completeness auto
termination
  by (relation "measure (\<lambda>(cfg, f, cellSize, i, x, y, t, lineVertices). verticesPerLine cfg - i)")
    auto

declare traceLoop.simps [simp del]

definition trace ::
  "settings \<Rightarrow> Field \<Rightarrow> number \<Rightarrow> number \<Rightarrow> number \<Rightarrow> StreamLineVertex list" where
  "trace cfg f x0 y0 cellSize =
     traceLoop cfg f cellSize 0 x0 y0 (Fin 0)
       [\<lparr> position = (x0 * cellSize, y0 * cellSize), time = Fin 0 \<rparr>]"

text \<open>
  The same loop, returning instead of the vertices the values of \<open>v\<close> by which it divides
  (three divisions by \<open>v\<close> in every iteration that passes the speed test).
\<close>

function traceDivisors ::
  "settings \<Rightarrow> Field \<Rightarrow> nat \<Rightarrow> number \<Rightarrow> number \<Rightarrow> number list" where
  "traceDivisors cfg f i x y =
     (if i < verticesPerLine cfg then
        (let (vx0, vy0) = f x y;
             vx = vx0 * speedScale cfg;
             vy = vy0 * speedScale cfg;
             v = Math_sqrt (vx * vx + vy * vy)
         in if v < minSpeedThreshold cfg then []
            else
              (let dx = vx / v;
                   dy = vy / v;
                   x' = x + dx * segmentLength cfg;
                   y' = y + dy * segmentLength cfg
               in v # traceDivisors cfg f (i + 1) x' y'))
      else [])"
  by pat_completeness auto
termination
  by (relation "measure (\<lambda>(cfg, f, i, x, y). verticesPerLine cfg - i)") auto

declare traceDivisors.simps [simp del]

subsection \<open>The tracer of the wind module\<close>

text \<open>
  \<open>trace\<close> of \<open>wind/wind-shared.ts\<close>, the older variant: no scaling of the speed, the
  length of a segment is a parameter, and a vertex also carries the distance covered.
\<close>

record Vertex = StreamLineVertex +
  distance :: number

definition MIN_SPEED_THRESHOLD :: number where
  "MIN_SPEED_THRESHOLD = toDouble (1 / 1000)"

function windTraceLoop ::
  "Field \<Rightarrow> number \<Rightarrow> number \<Rightarrow> number \<Rightarrow> nat \<Rightarrow> number \<Rightarrow> number \<Rightarrow> Vertex list \<Rightarrow> Vertex list" where
  "windTraceLoop f segLength t d c x y line =
     (if c < 100 then
        (let (vx, vy) = f x y;
             v = Math_sqrt (vx * vx + vy * vy)
         in if v < MIN_SPEED_THRESHOLD then line
            else
              (let dx = vx / v;
                   dy = vy / v;
                   x' = x + dx * segLength;
                   y' = y + dy * segLength;
                   dt = segLength / v;
                   t' = t + dt;
                   d' = d + segLength
               in windTraceLoop f segLength t' d' (c + 1) x' y'
                    (line @ [\<lparr> position = (x', y'), time = t', distance = d' \<rparr>])))
      else line)"
  by pat_completeness auto
termination
  by (relation "measure (\<lambda>(f, segLength, t, d, c, x, y, line). 100 - c)") auto

declare windTraceLoop.simps [simp del]

definition windTrace :: "Field \<Rightarrow> number \<Rightarrow> number \<Rightarrow> number \<Rightarrow> Vertex list" where
  "windTrace f x0 y0 segLength =
     windTraceLoop f segLength (Fin 0) (Fin 0) 0 x0 y0
       [\<lparr> position = (x0, y0), time = Fin 0, distance = Fin 0 \<rparr>]"

text \<open>The values of \<open>v\<close> by which this loop divides.\<close>

function windTraceDivisors :: "Field \<Rightarrow> number \<Rightarrow> nat \<Rightarrow> number \<Rightarrow> number \<Rightarrow> number list" where
  "windTraceDivisors f segLength c x y =
     (if c < 100 then
        (let (vx, vy) = f x y;
             v = Math_sqrt (vx * vx + vy * vy)
         in if v < MIN_SPEED_THRESHOLD then []
            else
              (let dx = vx / v;
                   dy = vy / v;
                   x' = x + dx * segLength;
                   y' = y + dy * segLength
               in v # windTraceDivisors f segLength (c + 1) x' y'))
      else [])"
  by pat_completeness auto
termination
  by (relation "measure (\<lambda>(f, segLength, c, x, y). 100 - c)") auto

declare windTraceDivisors.simps [simp del]

definition windSpeed :: "Field \<Rightarrow> number \<Rightarrow> number \<Rightarrow> number" where
  "windSpeed f x y = (let (vx, vy) = f x y in Math_sqrt (vx * vx + vy * vy))"

section \<open>Smoothing the grid\<close>

text \<open>
  A \<open>Float32Array\<close> is a list of numbers; a store into it rounds to 32 bits. A read
  outside the array gives \<open>undefined\<close>, a write outside is ignored, which is what the
  list update of HOL does. The numbers of columns and rows are natural numbers, \<open>sigma\<close>
  is a finite number.
\<close>

definition readAt :: "number list \<Rightarrow> nat \<Rightarrow> number" where
  "readAt data i = (if i < length data then data ! i else NaN)"

definition halfRadius :: "real \<Rightarrow> number" where
  "halfRadius sigma = Math_round (Fin 3 * Fin sigma)"

text \<open>
  The loop \<open>for (let d = -halfRadius; d <= halfRadius; d++)\<close> with its counter as the
  program has it, a double: \<open>kernelCounter d h visited\<close> is the loop from the value \<open>d\<close>
  of the counter on, \<open>visited\<close> the values for which the body has run. It returns the
  values for which the body runs, and \<open>None\<close> when the loop does not end.
\<close>

partial_function (option) kernelCounter :: "number \<Rightarrow> number \<Rightarrow> number list \<Rightarrow> number list option" where
  "kernelCounter d h visited =
     (if d \<le> h then kernelCounter (d + Fin 1) h (visited @ [d]) else Some visited)"

text \<open>
  The values of the counter as integers. For a \<open>halfRadius\<close> below \<open>2^53\<close> the increments
  are exact and the counter runs through the integers from \<open>-halfRadius\<close> to
  \<open>halfRadius\<close>: these are the values of \<open>kernelCounter\<close> (lemma \<open>kernelCounter_offsets\<close>
  below). For a \<open>halfRadius\<close> from \<open>2^53\<close> on the increment stops advancing the counter
  and the loop of the program does not end (lemma \<open>kernelCounter_stall\<close>), which the list
  does not show: the sums below are those of the program for a \<open>halfRadius\<close> below
  \<open>2^53\<close> only, and the statements on them are made under that hypothesis.
\<close>

definition kernelOffsets :: "number \<Rightarrow> int list" where
  "kernelOffsets h = (case h of Fin r \<Rightarrow> [- \<lfloor>r\<rfloor> .. \<lfloor>r\<rfloor>] | _ \<Rightarrow> [])"

definition kernelWeight :: "real \<Rightarrow> int \<Rightarrow> number" where
  "kernelWeight sigma d =
     Math_exp ((- Fin (of_int d) * Fin (of_int d)) / (Fin sigma * Fin sigma))"

text \<open>
  One iteration of the loop over \<open>d\<close> in the horizontal pass, on the accumulators
  \<open>(totalWeight, s0, s1)\<close>, and the loop.
\<close>

definition horizontalStep ::
  "number list \<Rightarrow> nat \<Rightarrow> real \<Rightarrow> nat \<Rightarrow> nat \<Rightarrow> int \<Rightarrow>
   number \<times> number \<times> number \<Rightarrow> number \<times> number \<times> number" where
  "horizontalStep data columns sigma y x d acc =
     (case acc of (totalWeight, s0, s1) \<Rightarrow>
        if int x + d < 0 \<or> int x + d \<ge> int columns then (totalWeight, s0, s1)
        else
          (let weight = kernelWeight sigma d
           in (totalWeight + weight,
               s0 + weight * readAt data (2 * (y * columns + nat (int x + d)) + 0),
               s1 + weight * readAt data (2 * (y * columns + nat (int x + d)) + 1))))"

definition horizontalSums ::
  "number list \<Rightarrow> nat \<Rightarrow> real \<Rightarrow> nat \<Rightarrow> nat \<Rightarrow> number \<times> number \<times> number" where
  "horizontalSums data columns sigma y x =
     fold (horizontalStep data columns sigma y x)
       (kernelOffsets (halfRadius sigma)) (Fin 0, Fin 0, Fin 0)"

definition verticalStep ::
  "number list \<Rightarrow> nat \<Rightarrow> nat \<Rightarrow> real \<Rightarrow> nat \<Rightarrow> nat \<Rightarrow> int \<Rightarrow>
   number \<times> number \<times> number \<Rightarrow> number \<times> number \<times> number" where
  "verticalStep horizontal columns rows sigma x y d acc =
     (case acc of (totalWeight, s0, s1) \<Rightarrow>
        if int y + d < 0 \<or> int y + d \<ge> int rows then (totalWeight, s0, s1)
        else
          (let weight = kernelWeight sigma d
           in (totalWeight + weight,
               s0 + weight * readAt horizontal (2 * (nat (int y + d) * columns + x) + 0),
               s1 + weight * readAt horizontal (2 * (nat (int y + d) * columns + x) + 1))))"

definition verticalSums ::
  "number list \<Rightarrow> nat \<Rightarrow> nat \<Rightarrow> real \<Rightarrow> nat \<Rightarrow> nat \<Rightarrow> number \<times> number \<times> number" where
  "verticalSums horizontal columns rows sigma x y =
     fold (verticalStep horizontal columns rows sigma x y)
       (kernelOffsets (halfRadius sigma)) (Fin 0, Fin 0, Fin 0)"

text \<open>
  The two stores that end the body of a cell: the weighted averages, or \<open>0\<close> when the
  total weight is below the threshold, rounded to 32 bits by the store.
\<close>

definition storeCell ::
  "settings \<Rightarrow> nat \<Rightarrow> number \<times> number \<times> number \<Rightarrow> number list \<Rightarrow> number list" where
  "storeCell cfg cell acc out =
     (case acc of (totalWeight, s0, s1) \<Rightarrow>
        (out[2 * cell + 0 :=
               Math_fround (if totalWeight < minWeightThreshold cfg then Fin 0 else s0 / totalWeight)])
           [2 * cell + 1 :=
               Math_fround (if totalWeight < minWeightThreshold cfg then Fin 0 else s1 / totalWeight)])"

definition horizontalPass ::
  "settings \<Rightarrow> number list \<Rightarrow> nat \<Rightarrow> nat \<Rightarrow> real \<Rightarrow> number list" where
  "horizontalPass cfg data columns rows sigma =
     fold (\<lambda>y. fold (\<lambda>x. storeCell cfg (y * columns + x)
                              (horizontalSums data columns sigma y x)) [0..<columns])
       [0..<rows] (replicate (length data) (Fin 0))"

definition verticalPass ::
  "settings \<Rightarrow> number list \<Rightarrow> nat \<Rightarrow> nat \<Rightarrow> real \<Rightarrow> number list" where
  "verticalPass cfg horizontal columns rows sigma =
     fold (\<lambda>x. fold (\<lambda>y. storeCell cfg (y * columns + x)
                              (verticalSums horizontal columns rows sigma x y)) [0..<rows])
       [0..<columns] (replicate (length horizontal) (Fin 0))"

definition smooth :: "settings \<Rightarrow> number list \<Rightarrow> nat \<Rightarrow> nat \<Rightarrow> real \<Rightarrow> number list" where
  "smooth cfg data columns rows sigma =
     (let horizontal = horizontalPass cfg data columns rows sigma;
          final = verticalPass cfg horizontal columns rows sigma
      in final)"

section \<open>The stream lines of a field\<close>

text \<open>
  \<open>createRand\<close> of \<open>core/util\<close> is not part of the sources at hand. A generator is a
  state of any type \<open>'g\<close> and a function \<open>rand\<close> that returns the next number and the
  next state; both are parameters. The loop of \<open>getStreamLines\<close> runs \<open>n\<close> more times
  from the generator state \<open>g\<close>.
\<close>

fun streamLinesLoop ::
  "settings \<Rightarrow> ('g \<Rightarrow> number \<times> 'g) \<Rightarrow> Field \<Rightarrow> nat \<Rightarrow> nat \<Rightarrow> number \<Rightarrow>
   nat \<Rightarrow> 'g \<Rightarrow> StreamLineVertex list list \<Rightarrow> StreamLineVertex list list" where
  "streamLinesLoop cfg rand f columns rows cellSize 0 g lines = lines"
| "streamLinesLoop cfg rand f columns rows cellSize (Suc n) g lines =
     (let (r1, g1) = rand g;
          (r2, g2) = rand g1;
          line = trace cfg f (Math_round (r1 * Fin (real columns)))
                   (Math_round (r2 * Fin (real rows))) cellSize
      in streamLinesLoop cfg rand f columns rows cellSize n g2 (lines @ [line]))"

definition getStreamLines ::
  "settings \<Rightarrow> ('g \<Rightarrow> number \<times> 'g) \<Rightarrow> 'g \<Rightarrow> Field \<Rightarrow> nat \<Rightarrow> nat \<Rightarrow> number \<Rightarrow>
   StreamLineVertex list list" where
  "getStreamLines cfg rand g f columns rows cellSize =
     streamLinesLoop cfg rand f columns rows cellSize (linesPerVisualization cfg) g []"

text \<open>The numbers that a generator draws from a state on, in the order it draws them.\<close>

fun draws :: "('g \<Rightarrow> number \<times> 'g) \<Rightarrow> 'g \<Rightarrow> nat \<Rightarrow> number list" where
  "draws rand g 0 = []"
| "draws rand g (Suc n) = fst (rand g) # draws rand (snd (rand g)) n"

section \<open>The field of a grid\<close>

record FlowData =
  data :: "number list"
  columns :: nat
  rows :: nat
  cellSize :: number

definition createFlowFieldFromData :: "settings \<Rightarrow> FlowData \<Rightarrow> Field" where
  "createFlowFieldFromData cfg flowData =
     (let smoothed = smooth cfg (data flowData) (columns flowData) (rows flowData) (smoothing cfg)
      in (\<lambda>x y.
            let X = Math_round x;
                Y = Math_round y
            in if X < Fin 0 \<or> Fin (real (columns flowData)) \<le> X then (Fin 0, Fin 0)
               else if Y < Fin 0 \<or> Fin (real (rows flowData)) \<le> Y then (Fin 0, Fin 0)
               else
                 (case (X, Y) of
                    (Fin a, Fin b) \<Rightarrow>
                      (readAt smoothed (2 * (nat \<lfloor>b\<rfloor> * columns flowData + nat \<lfloor>a\<rfloor>) + 0),
                       readAt smoothed (2 * (nat \<lfloor>b\<rfloor> * columns flowData + nat \<lfloor>a\<rfloor>) + 1))
                  | _ \<Rightarrow> (NaN, NaN))))"

section \<open>The mesh of the stream lines\<close>

text \<open>
  The two divisors of the body of the inner loop of \<open>createStreamLinesMesh\<close>, for the
  vertices \<open>line[i - 1]\<close> and \<open>line[i]\<close>: \<open>t1 - t0\<close>, by which \<open>speed\<close> divides, and the
  length \<open>l\<close>, by which \<open>ex\<close> and \<open>ey\<close> divide.
\<close>

definition timeDelta :: "StreamLineVertex \<Rightarrow> StreamLineVertex \<Rightarrow> number" where
  "timeDelta v0 v1 = time v1 - time v0"

definition edgeLength :: "StreamLineVertex \<Rightarrow> StreamLineVertex \<Rightarrow> number" where
  "edgeLength v0 v1 =
     (case (position v0, position v1) of
        ((x0, y0), (x1, y1)) \<Rightarrow>
          Math_sqrt ((x1 - x0) * (x1 - x0) + (y1 - y0) * (y1 - y0)))"

text \<open>The 36 numbers and the 6 indices that the body pushes for one segment.\<close>

definition segmentVertices ::
  "StreamLineVertex \<Rightarrow> StreamLineVertex \<Rightarrow> number \<Rightarrow> number \<Rightarrow> number list" where
  "segmentVertices v0 v1 totalTime random =
     (case (position v0, position v1) of
        ((x0, y0), (x1, y1)) \<Rightarrow>
          (let t0 = time v0;
               t1 = time v1;
               speed = Fin 1 / timeDelta v0 v1;
               l = edgeLength v0 v1;
               ex = (- (y1 - y0)) / l;
               ey = (x1 - x0) / l
           in [x0, y0, ex, ey, Fin (- 1), t0, totalTime, speed, random,
               x0, y0, - ex, - ey, Fin 1, t0, totalTime, speed, random,
               x1, y1, ex, ey, Fin (- 1), t1, totalTime, speed, random,
               x1, y1, - ex, - ey, Fin 1, t1, totalTime, speed, random]))"

definition segmentIndices :: "nat \<Rightarrow> nat list" where
  "segmentIndices vertexCount =
     [vertexCount + 0, vertexCount + 1, vertexCount + 2,
      vertexCount + 1, vertexCount + 3, vertexCount + 2]"

text \<open>
  The inner loop, from index \<open>i\<close> on, on the variables \<open>vertexCount\<close>, \<open>vertexData\<close> and
  \<open>indexData\<close>.
\<close>

function segmentLoop ::
  "StreamLineVertex list \<Rightarrow> number \<Rightarrow> number \<Rightarrow> nat \<Rightarrow> nat \<times> number list \<times> nat list \<Rightarrow>
   nat \<times> number list \<times> nat list" where
  "segmentLoop line random totalTime i (vertexCount, vertexData, indexData) =
     (if i < length line then
        segmentLoop line random totalTime (i + 1)
          (vertexCount + 4,
           vertexData @ segmentVertices (line ! (i - 1)) (line ! i) totalTime random,
           indexData @ segmentIndices vertexCount)
      else (vertexCount, vertexData, indexData))"
  by pat_completeness auto
termination
  by (relation "measure (\<lambda>(line, random, totalTime, i, acc). length line - i)") auto

declare segmentLoop.simps [simp del]

datatype error = AbortError | TypeError

text \<open>
  The body of the outer loop after the rest: it draws \<open>random\<close>, reads the last vertex of
  the line (reading \<open>time\<close> of \<open>undefined\<close> throws when the line is empty) and runs the
  inner loop.
\<close>

definition meshLine ::
  "('g \<Rightarrow> number \<times> 'g) \<Rightarrow> StreamLineVertex list \<Rightarrow> 'g \<Rightarrow> nat \<times> number list \<times> nat list \<Rightarrow>
   error + ('g \<times> nat \<times> number list \<times> nat list)" where
  "meshLine rand line g acc =
     (let (random, g') = rand g
      in if line = [] then Inl TypeError
         else
           (let lastVertex = last line;
                totalTime = time lastVertex
            in Inr (g', segmentLoop line random totalTime 1 acc)))"

text \<open>
  The clock and the abort signal are inputs: \<open>performanceNow env k\<close> is what the call number
  \<open>k\<close> of \<open>performance.now()\<close> returns, \<open>signalAborted env k\<close> tells whether the signal is
  aborted when the rest number \<open>k\<close> of the call looks at it.
\<close>

record Env =
  performanceNow :: "nat \<Rightarrow> number"
  signalAborted :: "nat \<Rightarrow> bool"

text \<open>
  Modelled from the spec: \<open>rest\<close> of \<open>core/util\<close> is not part of the sources at hand. It is
  the yield point of the driver: control goes back to the scheduler, then the cancellation
  signal is checked and, if it is set, the call ends as cancelled.
\<close>

definition rest :: "bool \<Rightarrow> error + unit" where
  "rest aborted = (if aborted then Inl AbortError else Inr ())"

text \<open>
  The outer loop over the lines, with the values of \<open>restTime\<close>, the numbers of calls of
  the clock and of rests so far, the state of the generator and the three variables of
  the mesh.
\<close>

fun meshLoop ::
  "Env \<Rightarrow> settings \<Rightarrow> ('g \<Rightarrow> number \<times> 'g) \<Rightarrow> StreamLineVertex list list \<Rightarrow> number \<Rightarrow> nat \<Rightarrow>
   nat \<Rightarrow> 'g \<Rightarrow> nat \<times> number list \<times> nat list \<Rightarrow> error + (nat \<times> number list \<times> nat list)" where
  "meshLoop env cfg rand [] restTime nowCalls rests g acc = Inr acc"
| "meshLoop env cfg rand (line # streamLines) restTime nowCalls rests g acc =
     (let currentTime = performanceNow env nowCalls;
          rested =
            (if flowProcessingQuanta cfg < currentTime - restTime then
               (case rest (signalAborted env rests) of
                  Inl e \<Rightarrow> Inl e
                | Inr u \<Rightarrow> Inr (currentTime, rests + 1))
             else Inr (restTime, rests))
      in case rested of
           Inl e \<Rightarrow> Inl e
         | Inr (restTime', rests') \<Rightarrow>
             (case meshLine rand line g acc of
                Inl e \<Rightarrow> Inl e
              | Inr (g', acc') \<Rightarrow>
                  meshLoop env cfg rand streamLines restTime' (nowCalls + 1) rests' g' acc'))"

text \<open>
  The typed arrays of the result, made of the numbers of an array: a \<open>Float32Array\<close>
  rounds every number to 32 bits, a \<open>Uint32Array\<close> keeps a number modulo \<open>2^32\<close>.
\<close>

definition Float32Array :: "number list \<Rightarrow> number list" where
  "Float32Array xs = map Math_fround xs"

definition Uint32Array :: "nat list \<Rightarrow> nat list" where
  "Uint32Array xs = map (\<lambda>n. n mod 2 ^ 32) xs"

record StreamLinesMesh =
  vertexData :: "number list"
  indexData :: "nat list"

text \<open>
  The part of \<open>createStreamLinesMesh\<close> that follows the computation of the stream lines:
  the mesh of given lines, with the generator of the mesh in state \<open>g\<close>.
\<close>

definition meshOfLines ::
  "Env \<Rightarrow> settings \<Rightarrow> ('g \<Rightarrow> number \<times> 'g) \<Rightarrow> 'g \<Rightarrow> StreamLineVertex list list \<Rightarrow>
   error + StreamLinesMesh" where
  "meshOfLines env cfg rand g streamLines =
     (let restTime = performanceNow env 0
      in case meshLoop env cfg rand streamLines restTime 1 0 g (0, [], []) of
           Inl e \<Rightarrow> Inl e
         | Inr (vertexCount, vd, ixd) \<Rightarrow>
             Inr \<lparr> vertexData = Float32Array vd, indexData = Uint32Array ixd \<rparr>)"

text \<open>
  \<open>createStreamLinesMesh\<close>: \<open>gLines\<close> and \<open>gMesh\<close> are the states of the generators that
  the two calls of \<open>createRand\<close> return.
\<close>

definition createStreamLinesMesh ::
  "Env \<Rightarrow> settings \<Rightarrow> ('g \<Rightarrow> number \<times> 'g) \<Rightarrow> 'g \<Rightarrow> 'g \<Rightarrow> FlowData \<Rightarrow> error + StreamLinesMesh" where
  "createStreamLinesMesh env cfg rand gLines gMesh flowData =
     (let f = createFlowFieldFromData cfg flowData;
          streamLines =
            getStreamLines cfg rand gLines f (columns flowData) (rows flowData) (cellSize flowData)
      in meshOfLines env cfg rand gMesh streamLines)"

text \<open>
  The number of rests that the outer loop takes over \<open>n\<close> lines when no rest cancels it:
  it depends on the clock only.
\<close>

fun restsTaken :: "Env \<Rightarrow> settings \<Rightarrow> number \<Rightarrow> nat \<Rightarrow> nat \<Rightarrow> nat" where
  "restsTaken env cfg restTime nowCalls 0 = 0"
| "restsTaken env cfg restTime nowCalls (Suc n) =
     (let currentTime = performanceNow env nowCalls
      in if flowProcessingQuanta cfg < currentTime - restTime
         then Suc (restsTaken env cfg currentTime (nowCalls + 1) n)
         else restsTaken env cfg restTime (nowCalls + 1) n)"

section \<open>The two processors\<close>

text \<open>
  \<open>MainFlowProcessor.createStreamLinesMesh\<close> calls \<open>createStreamLinesMesh\<close> in the
  caller's own context, with its clock and its signal.
\<close>

definition MainFlowProcessor_createStreamLinesMesh ::
  "Env \<Rightarrow> settings \<Rightarrow> ('g \<Rightarrow> number \<times> 'g) \<Rightarrow> 'g \<Rightarrow> 'g \<Rightarrow> FlowData \<Rightarrow> error + StreamLinesMesh" where
  "MainFlowProcessor_createStreamLinesMesh env cfg rand gLines gMesh flowData =
     createStreamLinesMesh env cfg rand gLines gMesh flowData"

text \<open>
  Modelled from the spec: \<open>throwIfAborted\<close> of \<open>core/util\<close> is not part of the sources at
  hand. It is the check of the cancellation signal at the entry of a stage: the call ends
  as cancelled when the signal is set.
\<close>

definition throwIfAborted :: "bool \<Rightarrow> error + unit" where
  "throwIfAborted aborted = (if aborted then Inl AbortError else Inr ())"

text \<open>
  The message to the worker: the fields of the flow data and the buffer of its array. A
  buffer is modelled by the numbers that the typed array over it holds, so the typed array
  made over a buffer (\<open>new Float32Array(buffer)\<close>, \<open>new Uint32Array(buffer)\<close>) holds
  the numbers of the buffer, unchanged.
\<close>

definition Float32ArrayOver :: "number list \<Rightarrow> number list" where
  "Float32ArrayOver buffer = buffer"

definition Uint32ArrayOver :: "nat list \<Rightarrow> nat list" where
  "Uint32ArrayOver buffer = buffer"

record TransferableFlowData = FlowData +
  buffer :: "number list"

record MeshBuffers =
  vertexBuffer :: "number list"
  indexBuffer :: "nat list"

text \<open>
  Modelled from the spec: the handler \<open>createStreamLinesMesh\<close> of the module
  \<open>workers/flow\<close> is not part of the sources at hand. The delegated implementation hands
  the grid, by its transferred storage, to the isolated context, runs the same pipeline
  there (with the clock and the signal of that context, \<open>envW\<close>), and gives back the
  buffers of the vertices and of the indices.
\<close>

definition workerCreateStreamLinesMesh ::
  "Env \<Rightarrow> settings \<Rightarrow> ('g \<Rightarrow> number \<times> 'g) \<Rightarrow> 'g \<Rightarrow> 'g \<Rightarrow> TransferableFlowData \<Rightarrow>
   error + MeshBuffers" where
  "workerCreateStreamLinesMesh envW cfg rand gLines gMesh message =
     (case createStreamLinesMesh envW cfg rand gLines gMesh
             \<lparr> data = Float32ArrayOver (buffer message), columns = columns message,
               rows = rows message, cellSize = cellSize message \<rparr> of
        Inl e \<Rightarrow> Inl e
      | Inr mesh \<Rightarrow> Inr \<lparr> vertexBuffer = vertexData mesh, indexBuffer = indexData mesh \<rparr>)"

text \<open>
  \<open>WorkerFlowProcessor.createStreamLinesMesh\<close>: the check of the signal once the
  connection is there (\<open>abortedAtEntry\<close> is the state of the signal at that point), the
  invocation of the handler, and the typed arrays over the buffers of the answer. The
  channel of \<open>esri/core/workers\<close> is taken to deliver the message and the answer
  unchanged; its failures are not modelled.
\<close>

definition WorkerFlowProcessor_createStreamLinesMesh ::
  "bool \<Rightarrow> Env \<Rightarrow> settings \<Rightarrow> ('g \<Rightarrow> number \<times> 'g) \<Rightarrow> 'g \<Rightarrow> 'g \<Rightarrow> FlowData \<Rightarrow>
   error + StreamLinesMesh" where
  "WorkerFlowProcessor_createStreamLinesMesh abortedAtEntry envW cfg rand gLines gMesh flowData =
     (case throwIfAborted abortedAtEntry of
        Inl e \<Rightarrow> Inl e
      | Inr u \<Rightarrow>
          (case workerCreateStreamLinesMesh envW cfg rand gLines gMesh
                  \<lparr> data = data flowData, columns = columns flowData, rows = rows flowData,
                    cellSize = cellSize flowData, buffer = data flowData \<rparr> of
             Inl e \<Rightarrow> Inl e
           | Inr result \<Rightarrow>
               Inr \<lparr> vertexData = Float32ArrayOver (vertexBuffer result),
                     indexData = Uint32ArrayOver (indexBuffer result) \<rparr>))"

section \<open>Predicates of the statements\<close>


text \<open>
  The seed points of \<open>getStreamLines\<close> in terms of the numbers that the generator draws:
  line number \<open>i\<close> starts at the draws number \<open>2 i\<close> (for \<open>x0\<close>) and \<open>2 i + 1\<close>
  (for \<open>y0\<close>), scaled by the size of the grid and rounded.
\<close>

definition seedPoints ::
  "('g \<Rightarrow> number \<times> 'g) \<Rightarrow> 'g \<Rightarrow> nat \<Rightarrow> nat \<Rightarrow> nat \<Rightarrow> (number \<times> number) list" where
  "seedPoints rand g cols rws n =
     map (\<lambda>i. (Math_round (draws rand g (2 * n) ! (2 * i) * Fin (real cols)),
                Math_round (draws rand g (2 * n) ! (2 * i + 1) * Fin (real rws))))
       [0..<n]"

text \<open>
  The variables of the mesh after the outer loop has run over all lines, which is what
  the loop computes when no rest cancels it, and the mesh made of them.
\<close>

fun meshLines ::
  "('g \<Rightarrow> number \<times> 'g) \<Rightarrow> StreamLineVertex list list \<Rightarrow> 'g \<Rightarrow> nat \<times> number list \<times> nat list \<Rightarrow>
   nat \<times> number list \<times> nat list" where
  "meshLines rand [] g acc = acc"
| "meshLines rand (line # streamLines) g acc =
     meshLines rand streamLines (snd (rand g))
       (segmentLoop line (fst (rand g)) (time (last line)) 1 acc)"

definition completeMesh ::
  "('g \<Rightarrow> number \<times> 'g) \<Rightarrow> 'g \<Rightarrow> StreamLineVertex list list \<Rightarrow> StreamLinesMesh" where
  "completeMesh rand g streamLines =
     (case meshLines rand streamLines g (0, [], []) of
        (vertexCount, vd, ixd) \<Rightarrow>
          \<lparr> vertexData = Float32Array vd, indexData = Uint32Array ixd \<rparr>)"

text \<open>The number of segments of a list of lines: the sum of \<open>k - 1\<close> over the lengths \<open>k\<close>.\<close>

definition segmentCount :: "StreamLineVertex list list \<Rightarrow> nat" where
  "segmentCount streamLines = sum_list (map (\<lambda>line. length line - 1) streamLines)"

section \<open>The rounding\<close>

lemma roundNearest_float: "x \<in> floats p emin emax \<Longrightarrow> roundNearest p emin emax x = Fin x"
  by (simp add: roundNearest_def)

lemma floats_int:
  assumes "\<bar>k\<bar> < 2 ^ p" "emin - int p + 1 \<le> 0" "0 \<le> emax - int p + 1"
  shows "of_int k \<in> floats p emin emax"
proof -
  have "real_of_int k = of_int k * 2 powr of_int 0" by simp
  then show ?thesis unfolding floats_def using assms by blast
qed

lemma floats_zero: "emin \<le> emax \<Longrightarrow> 0 \<in> floats p emin emax"
proof -
  assume a: "emin \<le> emax"
  have "(0::real) = of_int 0 * 2 powr of_int (emin - int p + 1) \<and> \<bar>0::int\<bar> < 2 ^ p \<and>
      emin - int p + 1 \<le> emin - int p + 1 \<and> emin - int p + 1 \<le> emax - int p + 1"
    using a by simp
  then show ?thesis unfolding floats_def by (intro CollectI exI)
qed

lemma roundHalfEven_bounds: "\<lfloor>r\<rfloor> \<le> roundHalfEven r \<and> roundHalfEven r \<le> \<lfloor>r\<rfloor> + 1"
  by (simp add: roundHalfEven_def Let_def)

lemma roundHalfEven_ge: "of_int k \<le> r \<Longrightarrow> k \<le> roundHalfEven r"
  using roundHalfEven_bounds[of r] by (meson le_floor_iff order_trans)

lemma roundHalfEven_le: "r \<le> of_int k \<Longrightarrow> roundHalfEven r \<le> k"
proof -
  assume a: "r \<le> of_int k"
  show ?thesis
  proof (cases "r = of_int k")
    case True
    then show ?thesis by (simp add: roundHalfEven_def)
  next
    case False
    then have "r < of_int k" using a by simp
    then have "\<lfloor>r\<rfloor> < k" by (simp add: floor_less_iff)
    then show ?thesis using roundHalfEven_bounds[of r] by linarith
  qed
qed

lemma roundHalfEven_small: "0 \<le> r \<Longrightarrow> r < 1 / 2 \<Longrightarrow> roundHalfEven r = 0"
proof -
  assume a: "0 \<le> r" "r < 1 / 2"
  then have "\<lfloor>r\<rfloor> = 0" by (simp add: floor_eq_iff)
  then show ?thesis using a by (simp add: roundHalfEven_def Let_def)
qed

lemma roundHalfEven_int: "roundHalfEven (of_int k) = k"
  by (simp add: roundHalfEven_def)

lemma ulp_pos: "0 < ulp p emin x"
  by (simp add: ulp_def)

lemma roundMagnitude_nonneg: "0 \<le> roundMagnitude p emin x"
proof -
  have "0 \<le> \<bar>x\<bar> / ulp p emin x" using ulp_pos[of p emin x] by simp
  then have "0 \<le> roundHalfEven (\<bar>x\<bar> / ulp p emin x)"
    using roundHalfEven_ge[of 0] by simp
  then show ?thesis unfolding roundMagnitude_def using ulp_pos[of p emin x] by simp
qed

text \<open>The rounded magnitude lies between the multiples of the unit below and above.\<close>

lemma roundMagnitude_ge:
  assumes "of_int k * ulp p emin x \<le> \<bar>x\<bar>"
  shows "of_int k * ulp p emin x \<le> roundMagnitude p emin x"
proof -
  have "of_int k \<le> \<bar>x\<bar> / ulp p emin x"
    using assms ulp_pos[of p emin x] by (simp add: pos_le_divide_eq)
  then have "k \<le> roundHalfEven (\<bar>x\<bar> / ulp p emin x)" by (rule roundHalfEven_ge)
  then have "real_of_int k \<le> of_int (roundHalfEven (\<bar>x\<bar> / ulp p emin x))" by simp
  then show ?thesis unfolding roundMagnitude_def
    using ulp_pos[of p emin x] by (simp add: mult_right_mono)
qed

lemma roundMagnitude_le:
  assumes "\<bar>x\<bar> \<le> of_int k * ulp p emin x"
  shows "roundMagnitude p emin x \<le> of_int k * ulp p emin x"
proof -
  have "\<bar>x\<bar> / ulp p emin x \<le> of_int k"
    using assms ulp_pos[of p emin x] by (simp add: pos_divide_le_eq)
  then have "roundHalfEven (\<bar>x\<bar> / ulp p emin x) \<le> k" by (rule roundHalfEven_le)
  then have "real_of_int (roundHalfEven (\<bar>x\<bar> / ulp p emin x)) \<le> of_int k" by simp
  then show ?thesis unfolding roundMagnitude_def
    using ulp_pos[of p emin x] by (simp add: mult_right_mono)
qed

lemma roundNearest_nonneg:
  assumes "0 \<le> x" "emin \<le> emax"
  shows "roundNearest p emin emax x = PInf \<or> (\<exists>y\<ge>0. roundNearest p emin emax x = Fin y)"
  using assms roundMagnitude_nonneg[of p emin x] floats_zero[OF assms(2), of p]
  by (auto simp: roundNearest_def sgn_if)

lemma roundNearest_nonpos:
  assumes "x \<le> 0" "emin \<le> emax"
  shows "roundNearest p emin emax x = NInf \<or> (\<exists>y\<le>0. roundNearest p emin emax x = Fin y)"
  using assms roundMagnitude_nonneg[of p emin x] floats_zero[OF assms(2), of p]
  by (auto simp: roundNearest_def sgn_if)

text \<open>The binade of a number.\<close>

lemma binade_le:
  assumes "x \<noteq> 0" "emin \<le> \<lfloor>log 2 \<bar>x\<bar>\<rfloor>"
  shows "2 powr of_int (binade emin x) \<le> \<bar>x\<bar>"
proof -
  have b: "binade emin x = \<lfloor>log 2 \<bar>x\<bar>\<rfloor>" using assms by (simp add: binade_def)
  have "of_int \<lfloor>log 2 \<bar>x\<bar>\<rfloor> \<le> log 2 \<bar>x\<bar>" by simp
  then show ?thesis unfolding b using assms(1) by (subst (asm) le_log_iff) simp_all
qed

lemma binade_gt:
  assumes "x \<noteq> 0"
  shows "\<bar>x\<bar> < 2 powr of_int (binade emin x + 1)"
proof -
  have "log 2 \<bar>x\<bar> < of_int (\<lfloor>log 2 \<bar>x\<bar>\<rfloor> + 1)" by simp
  also have "\<dots> \<le> of_int (binade emin x + 1)" by (simp add: binade_def)
  finally have "log 2 \<bar>x\<bar> < of_int (binade emin x + 1)" .
  then show ?thesis using assms by (subst (asm) log_less_iff) simp_all
qed

lemma binade_ge_pow:
  assumes "2 powr of_int a \<le> \<bar>x\<bar>"
  shows "a \<le> binade emin x"
proof -
  have x: "0 < \<bar>x\<bar>" using assms by (smt (verit) powr_gt_zero)
  have "of_int a \<le> log 2 \<bar>x\<bar>" using assms x by (subst le_log_iff) simp_all
  then have "a \<le> \<lfloor>log 2 \<bar>x\<bar>\<rfloor>" by (simp add: le_floor_iff)
  then show ?thesis by (simp add: binade_def)
qed

lemma binade_lt_pow:
  assumes "x \<noteq> 0" "\<bar>x\<bar> < 2 powr of_int b" "emin < b"
  shows "binade emin x < b"
proof -
  have "log 2 \<bar>x\<bar> < of_int b" using assms by (subst log_less_iff) simp_all
  then have "\<lfloor>log 2 \<bar>x\<bar>\<rfloor> < b" by (simp add: floor_less_iff)
  then show ?thesis using assms(3) by (simp add: binade_def)
qed

lemma ulp_times_pow: "of_int (2 ^ n) * ulp p emin x = 2 powr of_int (binade emin x - int p + 1 + int n)"
proof -
  have "(2::real) powr of_int (int n) = of_int (2 ^ n)"
    by (simp add: powr_realpow)
  then show ?thesis unfolding ulp_def
    by (metis powr_add of_int_add mult.commute)
qed

lemma roundNearest_lower:
  assumes "2 powr of_int a \<le> x" "emin \<le> a" "emin \<le> emax" "1 \<le> p"
  shows "roundNearest p emin emax x = PInf \<or>
     (\<exists>y. roundNearest p emin emax x = Fin y \<and> 2 powr of_int a \<le> y)"
proof (cases "x \<in> floats p emin emax")
  case True
  then show ?thesis using assms(1) by (simp add: roundNearest_def)
next
  case False
  have x: "0 < x" using assms(1) by (smt (verit) powr_gt_zero)
  then have ax: "\<bar>x\<bar> = x" by simp
  have "of_int a \<le> log 2 \<bar>x\<bar>" using assms(1) x by (subst le_log_iff) simp_all
  then have fl: "a \<le> \<lfloor>log 2 \<bar>x\<bar>\<rfloor>" by (simp add: le_floor_iff)
  then have "emin \<le> \<lfloor>log 2 \<bar>x\<bar>\<rfloor>" using assms(2) by simp
  then have lo: "2 powr of_int (binade emin x) \<le> \<bar>x\<bar>"
    using x by (intro binade_le) simp_all
  have ab: "a \<le> binade emin x" using fl by (simp add: binade_def)
  have e: "of_int (2 ^ (p - 1)) * ulp p emin x = 2 powr of_int (binade emin x)"
    unfolding ulp_times_pow using assms(4) by simp
  have "2 powr of_int (binade emin x) \<le> roundMagnitude p emin x"
    using roundMagnitude_ge[of "2 ^ (p - 1)" p emin x] lo unfolding e by simp
  moreover have "(2::real) powr of_int a \<le> 2 powr of_int (binade emin x)"
    using ab by (simp add: powr_mono)
  ultimately have "2 powr of_int a \<le> roundMagnitude p emin x" by linarith
  then show ?thesis using False x by (simp add: roundNearest_def)
qed

lemma roundNearest_upper:
  assumes "0 \<le> x" "x < 2 powr of_int b" "emin < b" "b \<le> emax"
  shows "\<exists>y. roundNearest p emin emax x = Fin y \<and> 0 \<le> y \<and> y \<le> 2 powr of_int b"
proof (cases "x \<in> floats p emin emax")
  case True
  then show ?thesis using assms(1,2) by (simp add: roundNearest_def)
next
  case False
  have le: "emin \<le> emax" using assms(3,4) by simp
  have x0: "x \<noteq> 0" using False floats_zero[OF le, of p] by auto
  then have x: "0 < x" using assms(1) by simp
  then have ax: "\<bar>x\<bar> = x" by simp
  have eb: "binade emin x < b"
    using x0 assms(2,3) ax by (intro binade_lt_pow) simp_all
  have e: "of_int (2 ^ p) * ulp p emin x = 2 powr of_int (binade emin x + 1)"
    unfolding ulp_times_pow by (simp add: algebra_simps)
  have "\<bar>x\<bar> \<le> of_int (2 ^ p) * ulp p emin x"
    unfolding e using binade_gt[OF x0, of emin] by simp
  then have "roundMagnitude p emin x \<le> of_int (2 ^ p) * ulp p emin x"
    by (rule roundMagnitude_le)
  then have m1: "roundMagnitude p emin x \<le> 2 powr of_int (binade emin x + 1)"
    unfolding e .
  have "(2::real) powr of_int (binade emin x + 1) \<le> 2 powr of_int b"
    using eb by (intro powr_mono) simp_all
  then have m: "roundMagnitude p emin x \<le> 2 powr of_int b" using m1 by linarith
  have "(2::real) powr of_int b < 2 powr of_int (emax + 1)"
    using assms(4) by (intro powr_less_mono) simp_all
  then have no: "\<not> 2 powr of_int (emax + 1) \<le> roundMagnitude p emin x" using m by linarith
  show ?thesis
    using False no x m roundMagnitude_nonneg[of p emin x] by (simp add: roundNearest_def)
qed

lemma roundNearest_between:
  assumes "2 powr of_int a \<le> x" "x < 2 powr of_int b" "emin \<le> a" "b \<le> emax" "1 \<le> p"
  shows "\<exists>y. roundNearest p emin emax x = Fin y \<and> 2 powr of_int a \<le> y \<and> y \<le> 2 powr of_int b"
proof -
  have x: "0 < x" using assms(1) by (smt (verit) powr_gt_zero)
  have "(2::real) powr of_int a < 2 powr of_int b" using assms(1,2) by linarith
  then have ab: "a < b" by simp
  from roundNearest_upper[of x b emin emax p] x assms ab
  obtain y where y: "roundNearest p emin emax x = Fin y" "y \<le> 2 powr of_int b" by auto
  from roundNearest_lower[OF assms(1,3) _ assms(5), of emax] assms ab y
  show ?thesis by auto
qed

lemma float_multiple_of_ulp:
  assumes c: "c \<in> floats p emin emax" and x: "0 < x" "x \<le> c"
  shows "\<exists>k. c = of_int k * ulp p emin x"
proof -
  obtain m e where me: "c = of_int m * 2 powr of_int e" "\<bar>m\<bar> < 2 ^ p" "emin - int p + 1 \<le> e"
    using c unfolding floats_def by blast
  let ?E = "binade emin x"
  show ?thesis
  proof (cases "?E - int p + 1 \<le> e")
    case True
    define j where "j = nat (e - (?E - int p + 1))"
    have j: "int j = e - (?E - int p + 1)" using True by (simp add: j_def)
    have "(2::real) powr of_int e = 2 powr of_int (?E - int p + 1 + int j)"
      unfolding j by simp
    also have "\<dots> = of_int (2 ^ j) * ulp p emin x"
      by (simp only: ulp_times_pow)
    finally have "c = of_int (m * 2 ^ j) * ulp p emin x"
      unfolding me(1) by simp
    then show ?thesis by blast
  next
    case False
    then have lt: "e < ?E - int p + 1" by simp
    then have "emin < ?E" using me(3) by linarith
    then have fl: "emin \<le> \<lfloor>log 2 \<bar>x\<bar>\<rfloor>" by (simp add: binade_def)
    have lo: "2 powr of_int ?E \<le> x"
      using binade_le[OF _ fl] x(1) by simp
    have cpos: "0 < c" using x by linarith
    have "m < 2 ^ p" using me(2) by linarith
    then have "real_of_int m < real_of_int (2 ^ p)" by (simp only: of_int_less_iff)
    then have "real_of_int m < 2 ^ p" by simp
    then have "c < 2 ^ p * 2 powr of_int e"
      unfolding me(1) by (simp add: mult_strict_right_mono)
    also have "\<dots> = 2 powr of_int (int p + e)"
      by (simp add: powr_add powr_realpow)
    also have "\<dots> \<le> 2 powr of_int ?E"
      using lt by (intro powr_mono) simp_all
    finally have "c < x" using lo by linarith
    then show ?thesis using x(2) by simp
  qed
qed

lemma float_less_max:
  assumes "c \<in> floats p emin emax"
  shows "\<bar>c\<bar> < 2 powr of_int (emax + 1)"
proof -
  obtain m e where me: "c = of_int m * 2 powr of_int e" "\<bar>m\<bar> < 2 ^ p" "e \<le> emax - int p + 1"
    using assms unfolding floats_def by blast
  have "real_of_int \<bar>m\<bar> < real_of_int (2 ^ p)" using me(2) by (simp only: of_int_less_iff)
  then have "\<bar>real_of_int m\<bar> < 2 ^ p" by simp
  then have "\<bar>real_of_int m\<bar> * 2 powr of_int e < 2 ^ p * 2 powr of_int e"
    by (intro mult_strict_right_mono) simp_all
  moreover have "\<bar>c\<bar> = \<bar>real_of_int m\<bar> * 2 powr of_int e"
    unfolding me(1) by (simp add: abs_mult)
  ultimately have "\<bar>c\<bar> < 2 ^ p * 2 powr of_int e" by simp
  also have "\<dots> = 2 powr of_int (int p + e)"
    by (simp add: powr_add powr_realpow)
  also have "\<dots> \<le> 2 powr of_int (emax + 1)"
    using me(3) by (intro powr_mono) simp_all
  finally show ?thesis .
qed

lemma roundNearest_upper_float:
  assumes "c \<in> floats p emin emax" "0 \<le> x" "x \<le> c" "emin \<le> emax"
  shows "\<exists>y. roundNearest p emin emax x = Fin y \<and> 0 \<le> y \<and> y \<le> c"
proof (cases "x \<in> floats p emin emax")
  case True
  then show ?thesis using assms by (simp add: roundNearest_def)
next
  case False
  have x0: "x \<noteq> 0" using False floats_zero[OF assms(4), of p] by auto
  then have x: "0 < x" using assms(2) by simp
  then have ax: "\<bar>x\<bar> = x" by simp
  obtain k where k: "c = of_int k * ulp p emin x"
    using float_multiple_of_ulp[OF assms(1) x assms(3)] by blast
  have "roundMagnitude p emin x \<le> of_int k * ulp p emin x"
    by (rule roundMagnitude_le) (use assms(3) ax k in simp)
  then have m: "roundMagnitude p emin x \<le> c" using k by simp
  have "c < 2 powr of_int (emax + 1)" using float_less_max[OF assms(1)] by simp
  then have no: "\<not> 2 powr of_int (emax + 1) \<le> roundMagnitude p emin x" using m by linarith
  show ?thesis
    using False no x m roundMagnitude_nonneg[of p emin x] by (simp add: roundNearest_def)
qed

lemma float_not_tiny:
  assumes "c \<in> floats p emin emax" "c \<noteq> 0"
  shows "2 powr of_int (emin - int p + 1) \<le> \<bar>c\<bar>"
proof -
  obtain m e where me: "c = of_int m * 2 powr of_int e" "emin - int p + 1 \<le> e"
    using assms unfolding floats_def by blast
  have "m \<noteq> 0" using assms(2) me(1) by auto
  then have "1 \<le> \<bar>real_of_int m\<bar>" by (simp add: abs_if)
  then have "1 * 2 powr of_int e \<le> \<bar>real_of_int m\<bar> * 2 powr of_int e"
    by (intro mult_right_mono) simp_all
  then have a: "2 powr of_int e \<le> \<bar>real_of_int m\<bar> * 2 powr of_int e" by simp
  have b: "(2::real) powr of_int (emin - int p + 1) \<le> 2 powr of_int e"
    using me(2) by (intro powr_mono) simp_all
  have "\<bar>c\<bar> = \<bar>real_of_int m\<bar> * 2 powr of_int e"
    unfolding me(1) by (simp add: abs_mult)
  then show ?thesis using a b by linarith
qed

lemma roundNearest_tiny:
  assumes "0 < x" "x < 2 powr of_int (emin - int p)" "emin \<le> emax"
  shows "roundNearest p emin emax x = Fin 0"
proof -
  have lt: "(2::real) powr of_int (emin - int p) < 2 powr of_int (emin - int p + 1)"
    by (intro powr_less_mono) simp_all
  have nf: "x \<notin> floats p emin emax"
  proof
    assume "x \<in> floats p emin emax"
    then have "2 powr of_int (emin - int p + 1) \<le> \<bar>x\<bar>"
      using assms(1) by (intro float_not_tiny) simp_all
    then show False using assms(1,2) lt by linarith
  qed
  have ax: "\<bar>x\<bar> = x" using assms(1) by simp
  have "log 2 \<bar>x\<bar> < of_int (emin - int p)"
    using assms(1,2) ax by (subst log_less_iff) simp_all
  then have "\<lfloor>log 2 \<bar>x\<bar>\<rfloor> < emin - int p" by (simp add: floor_less_iff)
  then have b: "binade emin x = emin" by (simp add: binade_def)
  have u: "ulp p emin x = 2 powr of_int (emin - int p + 1)" by (simp add: ulp_def b)
  have "2 powr of_int (emin - int p + 1) = 2 * (2::real) powr of_int (emin - int p)"
    by (simp add: powr_add)
  then have "\<bar>x\<bar> / ulp p emin x < 1 / 2"
    unfolding u ax using assms(2) by (simp add: pos_divide_less_eq)
  moreover have "0 \<le> \<bar>x\<bar> / ulp p emin x" using ulp_pos[of p emin x] by simp
  ultimately have "roundHalfEven (\<bar>x\<bar> / ulp p emin x) = 0"
    by (intro roundHalfEven_small)
  then have "roundMagnitude p emin x = 0" by (simp add: roundMagnitude_def)
  then show ?thesis using nf by (simp add: roundNearest_def)
qed

subsection \<open>Doubles\<close>

lemma toDouble_float: "x \<in> doubles \<Longrightarrow> toDouble x = Fin x"
  by (simp add: toDouble_def doubles_def roundNearest_float)

lemma toDouble_of_int: "\<bar>k\<bar> < 2 ^ 53 \<Longrightarrow> toDouble (of_int k) = Fin (of_int k)"
  by (rule toDouble_float) (simp add: doubles_def floats_int)

lemma toDouble_0 [simp]: "toDouble 0 = Fin 0"
  using toDouble_of_int[of 0] by simp

lemma toDouble_1 [simp]: "toDouble 1 = Fin 1"
  using toDouble_of_int[of 1] by simp

lemma toDouble_numeral [simp]:
  "(numeral n :: int) < 2 ^ 53 \<Longrightarrow> toDouble (numeral n) = Fin (numeral n)"
  using toDouble_of_int[of "numeral n"] by simp

lemma toDouble_neg_numeral [simp]:
  "(numeral n :: int) < 2 ^ 53 \<Longrightarrow> toDouble (- numeral n) = Fin (- numeral n)"
  using toDouble_of_int[of "- numeral n"] by simp

lemma toDouble_half [simp]: "toDouble (1 / 2) = Fin (1 / 2)"
proof -
  have "(1 / 2 :: real) = of_int 1 * 2 powr of_int (- 1)"
    by (simp add: powr_minus_divide)
  moreover have "\<bar>1::int\<bar> < 2 ^ 53" "- 1022 - int 53 + 1 \<le> (- 1::int)" "(- 1::int) \<le> 1023 - int 53 + 1"
    by simp_all
  ultimately have "(1 / 2 :: real) \<in> doubles"
    unfolding doubles_def floats_def by blast
  then show ?thesis by (rule toDouble_float)
qed

lemma dyadic_double:
  "\<bar>m\<bar> < 2 ^ 53 \<Longrightarrow> - 1074 \<le> e \<Longrightarrow> e \<le> 971 \<Longrightarrow> of_int m * 2 powr of_int e \<in> doubles"
  unfolding doubles_def floats_def by auto

lemma nat_double: "n < 2 ^ 53 \<Longrightarrow> real n \<in> doubles"
proof -
  assume "n < 2 ^ 53"
  then have "\<bar>int n\<bar> < 2 ^ 53" by (simp add: of_nat_less_numeral_power_cancel_iff)
  then have "of_int (int n) * 2 powr of_int 0 \<in> doubles" by (intro dyadic_double) simp_all
  then show ?thesis by simp
qed

lemma doubles_times_four:
  assumes "r \<in> doubles" "\<bar>r\<bar> < 1"
  shows "r * 4 \<in> doubles"
proof -
  obtain m e where me: "r = of_int m * 2 powr of_int e" "\<bar>m\<bar> < 2 ^ 53" "- 1074 \<le> e" "e \<le> 971"
    using assms(1) unfolding doubles_def floats_def by auto
  show ?thesis
  proof (cases "m = 0")
    case True
    then have "r * 4 = of_int 0 * 2 powr of_int 0" using me(1) by simp
    then show ?thesis using dyadic_double[of 0 0] by simp
  next
    case False
    then have "1 \<le> \<bar>real_of_int m\<bar>" by (simp add: abs_if)
    then have "1 * 2 powr of_int e \<le> \<bar>real_of_int m\<bar> * 2 powr of_int e"
      by (intro mult_right_mono) simp_all
    then have "2 powr of_int e \<le> \<bar>real_of_int m\<bar> * 2 powr of_int e" by simp
    moreover have "\<bar>r\<bar> = \<bar>real_of_int m\<bar> * 2 powr of_int e"
      unfolding me(1) by (simp add: abs_mult)
    ultimately have lt: "(2::real) powr of_int e < 1" using assms(2) by linarith
    have "e < 0"
    proof (rule ccontr)
      assume "\<not> e < 0"
      then have "(2::real) powr of_int 0 \<le> 2 powr of_int e" by (intro powr_mono) simp_all
      then show False using lt by simp
    qed
    then have e: "e + 2 \<le> 971" "- 1074 \<le> e + 2" using me(3) by simp_all
    have "(2::real) powr of_int (e + 2) = 2 powr of_int e * 4"
      by (simp add: powr_add)
    then have "r * 4 = of_int m * 2 powr of_int (e + 2)" unfolding me(1) by simp
    then show ?thesis using dyadic_double[OF me(2) e(2,1)] by simp
  qed
qed

lemma toDouble_nonneg: "0 \<le> x \<Longrightarrow> toDouble x = PInf \<or> (\<exists>y\<ge>0. toDouble x = Fin y)"
  unfolding toDouble_def by (rule roundNearest_nonneg) simp_all

lemma toDouble_nonpos: "x \<le> 0 \<Longrightarrow> toDouble x = NInf \<or> (\<exists>y\<le>0. toDouble x = Fin y)"
  unfolding toDouble_def by (rule roundNearest_nonpos) simp_all

lemma toDouble_ge_one: "1 \<le> x \<Longrightarrow> toDouble x = PInf \<or> (\<exists>y\<ge>1. toDouble x = Fin y)"
  using roundNearest_lower[of 0 x "- 1022" 1023 53] by (auto simp: toDouble_def)

lemma toDouble_between:
  assumes "2 powr of_int a \<le> x" "x < 2 powr of_int b" "- 1022 \<le> a" "b \<le> 1023"
  shows "\<exists>y. toDouble x = Fin y \<and> 2 powr of_int a \<le> y \<and> y \<le> 2 powr of_int b"
  unfolding toDouble_def by (rule roundNearest_between) (use assms in simp_all)

lemma toDouble_le_float:
  assumes "c \<in> doubles" "0 \<le> x" "x \<le> c"
  shows "\<exists>y. toDouble x = Fin y \<and> 0 \<le> y \<and> y \<le> c"
  unfolding toDouble_def by (rule roundNearest_upper_float) (use assms in \<open>simp_all add: doubles_def\<close>)

lemma toDouble_tenth: "\<exists>s. toDouble (1 / 10) = Fin s \<and> 1 / 16 \<le> s \<and> s \<le> 1 / 8"
proof -
  have a: "(2::real) powr of_int (- 4) = 1 / 16" "(2::real) powr of_int (- 3) = 1 / 8"
    by (simp_all add: powr_minus_divide)
  from toDouble_between[of "- 4" "1 / 10" "- 3"] show ?thesis unfolding a by simp
qed

lemma toDouble_thousandth: "\<exists>m. toDouble (1 / 1000) = Fin m \<and> 1 / 1024 \<le> m \<and> m \<le> 1 / 512"
proof -
  have a: "(2::real) powr of_int (- 10) = 1 / 1024" "(2::real) powr of_int (- 9) = 1 / 512"
    by (simp_all add: powr_minus_divide)
  from toDouble_between[of "- 10" "1 / 1000" "- 9"] show ?thesis unfolding a by simp
qed

lemma toFloat32_float: "x \<in> floats 24 (- 126) 127 \<Longrightarrow> toFloat32 x = Fin x"
  by (simp add: toFloat32_def roundNearest_float)

lemma toFloat32_of_int: "\<bar>k\<bar> < 2 ^ 24 \<Longrightarrow> toFloat32 (of_int k) = Fin (of_int k)"
  by (rule toFloat32_float) (simp add: floats_int)

lemma toFloat32_0 [simp]: "toFloat32 0 = Fin 0"
  using toFloat32_of_int[of 0] by simp

lemma toFloat32_1 [simp]: "toFloat32 1 = Fin 1"
  using toFloat32_of_int[of 1] by simp

lemma toFloat32_numeral [simp]:
  "(numeral n :: int) < 2 ^ 24 \<Longrightarrow> toFloat32 (numeral n) = Fin (numeral n)"
  using toFloat32_of_int[of "numeral n"] by simp

lemma toFloat32_neg_numeral [simp]:
  "(numeral n :: int) < 2 ^ 24 \<Longrightarrow> toFloat32 (- numeral n) = Fin (- numeral n)"
  using toFloat32_of_int[of "- numeral n"] by simp

lemma toFloat32_neg_one [simp]: "toFloat32 (- 1) = Fin (- 1)"
  using toFloat32_of_int[of "- 1"] by simp

lemma toFloat32_half [simp]: "toFloat32 (1 / 2) = Fin (1 / 2)"
proof -
  have "(1 / 2 :: real) = of_int 1 * 2 powr of_int (- 1)"
    by (simp add: powr_minus_divide)
  moreover have "\<bar>1::int\<bar> < 2 ^ 24" "- 126 - int 24 + 1 \<le> (- 1::int)" "(- 1::int) \<le> 127 - int 24 + 1"
    by simp_all
  ultimately have "(1 / 2 :: real) \<in> floats 24 (- 126) 127"
    unfolding floats_def by blast
  then show ?thesis by (rule toFloat32_float)
qed

lemma length_Float32Array [simp]: "length (Float32Array xs) = length xs"
  by (simp add: Float32Array_def)

section \<open>The shape of the mesh\<close>

lemma length_segmentVertices: "length (segmentVertices v0 v1 tt r) = 36"
  by (simp add: segmentVertices_def Let_def split: prod.splits)

lemma length_segmentIndices: "length (segmentIndices b) = 6"
  by (simp add: segmentIndices_def)

lemma segmentLoop_eq:
  "length line - i = n \<Longrightarrow>
   segmentLoop line random tt i (vc, vd, ix) =
     (vc + 4 * n,
      vd @ concat (map (\<lambda>j. segmentVertices (line ! (j - 1)) (line ! j) tt random) [i..<i + n]),
      ix @ concat (map (\<lambda>b. segmentIndices (vc + 4 * b)) [0..<n]))"
proof (induction n arbitrary: i vc vd ix)
  case 0
  then show ?case by (subst segmentLoop.simps) simp
next
  case (Suc n)
  then have lt: "i < length line" and n: "length line - (i + 1) = n" by simp_all
  have a: "[i..<i + Suc n] = i # [i + 1..<i + 1 + n]"
    by (simp add: upt_conv_Cons)
  have b: "map (\<lambda>b. segmentIndices (vc + 4 * b)) [0..<Suc n] =
        segmentIndices vc # map (\<lambda>b. segmentIndices (vc + 4 + 4 * b)) [0..<n]"
  proof -
    have "[0..<Suc n] = 0 # map Suc [0..<n]"
      by (simp add: upt_conv_Cons map_Suc_upt del: upt_Suc)
    then show ?thesis by (simp add: comp_def add.assoc del: upt_Suc)
  qed
  show ?case
    apply (subst segmentLoop.simps)
    apply (simp only: lt if_True Suc.IH[OF n] a b)
    apply simp
    done
qed


lemma concat_map_upt_add:
  "concat (map f [0..<n + m]) = concat (map f [0..<n]) @ concat (map (\<lambda>b. f (n + b)) [0..<m])"
proof -
  have "[0..<n + m] = [0..<n] @ [n..<n + m]"
    by (metis upt_add_eq_append zero_le)
  moreover have "map f [n..<n + m] = map (\<lambda>b. f (n + b)) [0..<m]"
    using arg_cong[OF map_add_upt[of n m], of "map f"] by (simp add: add.commute comp_def)
  ultimately show ?thesis by simp
qed

lemma meshLoop_shape:
  assumes "\<forall>l\<in>set lines. l \<noteq> []"
  shows "(\<exists>vd'. meshLoop env cfg rand lines rt nc rs g (vc, vd, ix) =
             Inr (vc + 4 * segmentCount lines, vd @ vd',
                  ix @ concat (map (\<lambda>b. segmentIndices (vc + 4 * b)) [0..<segmentCount lines]))
           \<and> length vd' = 36 * segmentCount lines)
       \<or> (meshLoop env cfg rand lines rt nc rs g (vc, vd, ix) = Inl AbortError
           \<and> (\<exists>k. signalAborted env k))"
  using assms
proof (induction lines arbitrary: rt nc rs g vc vd ix)
  case Nil
  then show ?case by (simp add: segmentCount_def)
next
  case (Cons line lines)
  then have ne: "line \<noteq> []" and rest: "\<forall>l\<in>set lines. l \<noteq> []" by simp_all
  obtain random g' where rg: "rand g = (random, g')" by (cases "rand g")
  define n where "n = length line - 1"
  have sc: "segmentCount (line # lines) = n + segmentCount lines"
    by (simp add: segmentCount_def n_def)
  have seg: "segmentLoop line random (time (last line)) 1 (vc, vd, ix) =
      (vc + 4 * n,
       vd @ concat (map (\<lambda>j. segmentVertices (line ! (j - 1)) (line ! j) (time (last line)) random) [1..<1 + n]),
       ix @ concat (map (\<lambda>b. segmentIndices (vc + 4 * b)) [0..<n]))"
    by (rule segmentLoop_eq) (simp add: n_def)
  let ?vd1 = "concat (map (\<lambda>j. segmentVertices (line ! (j - 1)) (line ! j) (time (last line)) random) [1..<1 + n])"
  have len1: "length ?vd1 = 36 * n"
    by (simp add: length_concat comp_def length_segmentVertices sum_list_triv del: upt_Suc)
  have ml: "meshLine rand line g (vc, vd, ix) =
      Inr (g', vc + 4 * n, vd @ ?vd1, ix @ concat (map (\<lambda>b. segmentIndices (vc + 4 * b)) [0..<n]))"
    using ne rg seg by (simp add: meshLine_def Let_def)
  have idx: "(ix @ concat (map (\<lambda>b. segmentIndices (vc + 4 * b)) [0..<n])) @
          concat (map (\<lambda>b. segmentIndices (vc + 4 * n + 4 * b)) [0..<segmentCount lines]) =
        ix @ concat (map (\<lambda>b. segmentIndices (vc + 4 * b)) [0..<n + segmentCount lines])"
    by (simp add: concat_map_upt_add[of _ n] add_mult_distrib2 add.assoc)
  show ?case
  proof (cases "flowProcessingQuanta cfg < performanceNow env nc - rt \<and> signalAborted env rs")
    case True
    then show ?thesis by (auto simp: Let_def rest_def)
  next
    case False
    define rt' where "rt' = (if flowProcessingQuanta cfg < performanceNow env nc - rt then performanceNow env nc else rt)"
    define rs' where "rs' = (if flowProcessingQuanta cfg < performanceNow env nc - rt then rs + 1 else rs)"
    have step: "meshLoop env cfg rand (line # lines) rt nc rs g (vc, vd, ix) =
        meshLoop env cfg rand lines rt' (nc + 1) rs' g'
          (vc + 4 * n, vd @ ?vd1, ix @ concat (map (\<lambda>b. segmentIndices (vc + 4 * b)) [0..<n]))"
      using False ml by (auto simp: Let_def rest_def rt'_def rs'_def)
    from Cons.IH[OF rest, of rt' "nc + 1" rs' g' "vc + 4 * n" "vd @ ?vd1"
        "ix @ concat (map (\<lambda>b. segmentIndices (vc + 4 * b)) [0..<n])"]
    show ?thesis
    proof
      assume "\<exists>vd'. meshLoop env cfg rand lines rt' (nc + 1) rs' g'
          (vc + 4 * n, vd @ ?vd1, ix @ concat (map (\<lambda>b. segmentIndices (vc + 4 * b)) [0..<n])) =
         Inr (vc + 4 * n + 4 * segmentCount lines, (vd @ ?vd1) @ vd',
           (ix @ concat (map (\<lambda>b. segmentIndices (vc + 4 * b)) [0..<n])) @
           concat (map (\<lambda>b. segmentIndices (vc + 4 * n + 4 * b)) [0..<segmentCount lines])) \<and>
         length vd' = 36 * segmentCount lines"
      then obtain vd' where r: "meshLoop env cfg rand lines rt' (nc + 1) rs' g'
          (vc + 4 * n, vd @ ?vd1, ix @ concat (map (\<lambda>b. segmentIndices (vc + 4 * b)) [0..<n])) =
         Inr (vc + 4 * n + 4 * segmentCount lines, (vd @ ?vd1) @ vd',
           (ix @ concat (map (\<lambda>b. segmentIndices (vc + 4 * b)) [0..<n])) @
           concat (map (\<lambda>b. segmentIndices (vc + 4 * n + 4 * b)) [0..<segmentCount lines]))"
        and l: "length vd' = 36 * segmentCount lines" by blast
      have "meshLoop env cfg rand (line # lines) rt nc rs g (vc, vd, ix) =
          Inr (vc + 4 * segmentCount (line # lines), vd @ (?vd1 @ vd'),
               ix @ concat (map (\<lambda>b. segmentIndices (vc + 4 * b)) [0..<segmentCount (line # lines)]))"
        unfolding step r sc idx by (simp add: add_mult_distrib2)
      moreover have "length (?vd1 @ vd') = 36 * segmentCount (line # lines)"
        using len1 l sc by (simp del: upt_Suc)
      ultimately show ?thesis by blast
    next
      assume "meshLoop env cfg rand lines rt' (nc + 1) rs' g'
          (vc + 4 * n, vd @ ?vd1, ix @ concat (map (\<lambda>b. segmentIndices (vc + 4 * b)) [0..<n])) =
          Inl AbortError \<and> (\<exists>k. signalAborted env k)"
      then show ?thesis unfolding step by blast
    qed
  qed
qed


lemma segmentIndices_bound: "b < S \<Longrightarrow> i \<in> set (segmentIndices (4 * b)) \<Longrightarrow> i < 4 * S"
  by (auto simp: segmentIndices_def)

lemma segmentIndices_explicit:
  "segmentIndices (4 * s) = [4 * s, 4 * s + 1, 4 * s + 2, 4 * s + 1, 4 * s + 3, 4 * s + 2]"
  by (simp add: segmentIndices_def)

text \<open>
  Claim C1. For lines of \<open>k_i \<ge> 1\<close> vertices, with \<open>S\<close> the sum of the \<open>k_i - 1\<close>, a call
  that is not cancelled at a rest returns a mesh with \<open>9 \<times> 4 \<times> S\<close> numbers in \<open>vertexData\<close>
  (\<open>4 \<times> S\<close> vertices of 9 numbers) and \<open>6 \<times> S\<close> indices, every index is below \<open>4 \<times> S\<close>, and
  the indices of segment number \<open>s\<close> are \<open>b, b + 1, b + 2, b + 1, b + 3, b + 2\<close> for the
  running vertex count \<open>b = 4 \<times> s\<close> (as the \<open>Uint32Array\<close> stores them, which is unchanged
  as long as \<open>4 \<times> S \<le> 2^32\<close>). The only other outcome is the cancellation at a rest,
  which needs the signal to be aborted.
\<close>

theorem mesh_counts:
  assumes "\<forall>line\<in>set streamLines. 1 \<le> length line"
  shows "(\<exists>m. meshOfLines env cfg rand g streamLines = Inr m
            \<and> length (vertexData m) = 9 * (4 * segmentCount streamLines)
            \<and> length (indexData m) = 6 * segmentCount streamLines
            \<and> (\<forall>i\<in>set (indexData m). i < 4 * segmentCount streamLines)
            \<and> indexData m =
                Uint32Array
                  (concat (map (\<lambda>s. [4 * s, 4 * s + 1, 4 * s + 2, 4 * s + 1, 4 * s + 3, 4 * s + 2])
                     [0..<segmentCount streamLines]))
            \<and> (4 * segmentCount streamLines \<le> 2 ^ 32 \<longrightarrow>
                indexData m =
                  concat (map (\<lambda>s. [4 * s, 4 * s + 1, 4 * s + 2, 4 * s + 1, 4 * s + 3, 4 * s + 2])
                    [0..<segmentCount streamLines])))
       \<or> (meshOfLines env cfg rand g streamLines = Inl AbortError \<and> (\<exists>k. signalAborted env k))"
proof -
  let ?S = "segmentCount streamLines"
  let ?ix = "concat (map (\<lambda>s. segmentIndices (4 * s)) [0..<?S])"
  let ?ex = "concat (map (\<lambda>s. [4 * s, 4 * s + 1, 4 * s + 2, 4 * s + 1, 4 * s + 3, 4 * s + 2]) [0..<?S])"
  have ex: "?ix = ?ex"
    by (simp only: segmentIndices_explicit)
  have ne: "\<forall>l\<in>set streamLines. l \<noteq> []" using assms by auto
  have bound: "\<forall>i\<in>set ?ix. i < 4 * ?S"
    using segmentIndices_bound by auto
  from meshLoop_shape[OF ne, of env cfg rand "performanceNow env 0" 1 0 g 0 "[]" "[]"]
  show ?thesis
  proof
    assume "\<exists>vd'. meshLoop env cfg rand streamLines (performanceNow env 0) 1 0 g (0, [], []) =
        Inr (0 + 4 * ?S, [] @ vd', [] @ concat (map (\<lambda>b. segmentIndices (0 + 4 * b)) [0..<?S])) \<and>
        length vd' = 36 * ?S"
    then obtain vd' where r: "meshLoop env cfg rand streamLines (performanceNow env 0) 1 0 g (0, [], []) =
        Inr (4 * ?S, vd', ?ix)" and l: "length vd' = 36 * ?S" by auto
    let ?m = "\<lparr> vertexData = Float32Array vd', indexData = Uint32Array ?ix \<rparr>"
    have m: "meshOfLines env cfg rand g streamLines = Inr ?m"
      using r by (simp add: meshOfLines_def)
    have len: "length ?ix = 6 * ?S"
      by (simp add: length_concat comp_def length_segmentIndices sum_list_triv)
    have ub: "\<forall>i\<in>set (Uint32Array ?ix). i < 4 * ?S"
    proof
      fix i assume "i \<in> set (Uint32Array ?ix)"
      then obtain j where j: "j \<in> set ?ix" and i: "i = j mod 2 ^ 32"
        unfolding Uint32Array_def by auto
      have "j < 4 * ?S" using bound j by blast
      moreover have "i \<le> j" using i by simp
      ultimately show "i < 4 * ?S" by linarith
    qed
    have small: "4 * ?S \<le> 2 ^ 32 \<longrightarrow> Uint32Array ?ix = ?ix"
    proof
      assume a: "4 * ?S \<le> 2 ^ 32"
      have "\<forall>j\<in>set ?ix. j mod 2 ^ 32 = j"
      proof
        fix j assume "j \<in> set ?ix"
        then have "j < 4 * ?S" using bound by blast
        then have "j < 2 ^ 32" using a by linarith
        then show "j mod 2 ^ 32 = j" by simp
      qed
      then have "map (\<lambda>n. n mod 2 ^ 32) ?ix = ?ix"
        by (intro map_idI) blast
      then show "Uint32Array ?ix = ?ix"
        unfolding Uint32Array_def .
    qed
    have "length (vertexData ?m) = 9 * (4 * ?S)" using l by (simp add: Float32Array_def)
    moreover have "length (indexData ?m) = 6 * ?S" using len by (simp add: Uint32Array_def)
    moreover have "\<forall>i\<in>set (indexData ?m). i < 4 * ?S" using ub by simp
    moreover have "indexData ?m = Uint32Array ?ex" using ex by simp
    moreover have "4 * ?S \<le> 2 ^ 32 \<longrightarrow> indexData ?m = ?ex" using small ex by simp
    ultimately show ?thesis using m by blast
  next
    assume "meshLoop env cfg rand streamLines (performanceNow env 0) 1 0 g (0, [], []) = Inl AbortError \<and>
        (\<exists>k. signalAborted env k)"
    then show ?thesis by (simp add: meshOfLines_def)
  qed
qed

text \<open>
  A line of three vertices, a line of one vertex and a line of two vertices: three
  segments, whose indices continue the running count over the lines.
\<close>

theorem mesh_counts_witness:
  "\<exists>m. meshOfLines \<lparr> performanceNow = (\<lambda>k. Fin 0), signalAborted = (\<lambda>k. False) \<rparr> settings
          (\<lambda>g::unit. (Fin (1 / 2), g)) ()
          [[\<lparr> position = (Fin 0, Fin 0), time = Fin 0 \<rparr>,
            \<lparr> position = (Fin 1, Fin 0), time = Fin 1 \<rparr>,
            \<lparr> position = (Fin 1, Fin 1), time = Fin 2 \<rparr>],
           [\<lparr> position = (Fin 2, Fin 2), time = Fin 0 \<rparr>],
           [\<lparr> position = (Fin 3, Fin 0), time = Fin 0 \<rparr>,
            \<lparr> position = (Fin 3, Fin 1), time = Fin 1 \<rparr>]] = Inr m
       \<and> length (vertexData m) = 108 \<and> length (indexData m) = 18
       \<and> indexData m = [0, 1, 2, 1, 3, 2, 4, 5, 6, 5, 7, 6, 8, 9, 10, 9, 11, 10]"
proof -
  let ?L = "[[\<lparr> position = (Fin 0, Fin 0), time = Fin 0 \<rparr>,
            \<lparr> position = (Fin 1, Fin 0), time = Fin 1 \<rparr>,
            \<lparr> position = (Fin 1, Fin 1), time = Fin 2 \<rparr>],
           [\<lparr> position = (Fin 2, Fin 2), time = Fin 0 \<rparr>],
           [\<lparr> position = (Fin 3, Fin 0), time = Fin 0 \<rparr>,
            \<lparr> position = (Fin 3, Fin 1), time = Fin 1 \<rparr>]]"
  have h: "\<forall>line\<in>set ?L. 1 \<le> length line" by simp
  have s: "segmentCount ?L = 3" by (simp add: segmentCount_def)
  have u: "[0..<3] = [0, 1, 2]" by (simp add: upt_conv_Cons)
  show ?thesis
    using mesh_counts[OF h, of "\<lparr> performanceNow = (\<lambda>k. Fin 0), signalAborted = (\<lambda>k. False) \<rparr>"
        settings "\<lambda>g::unit. (Fin (1 / 2), g)" "()"]
    unfolding s u by auto
qed


section \<open>The tracer\<close>


lemma settings_minSpeedThreshold: "\<exists>m. minSpeedThreshold settings = Fin m \<and> 0 < m \<and> m < 1 / 16"
  using toDouble_thousandth by (auto simp: settings_def)

lemma settings_minWeightThreshold: "\<exists>m. minWeightThreshold settings = Fin m \<and> 0 < m \<and> m < 1"
  using toDouble_thousandth by (auto simp: settings_def)

lemma settings_speedScale: "\<exists>s. speedScale settings = Fin s \<and> 1 / 16 \<le> s \<and> s \<le> 1 / 8"
  using toDouble_tenth by (auto simp: settings_def)

lemma MIN_SPEED_THRESHOLD_pos: "\<exists>m. MIN_SPEED_THRESHOLD = Fin m \<and> 0 < m"
  using toDouble_thousandth by (auto simp: MIN_SPEED_THRESHOLD_def)

lemma scaledSpeed_zero:
  "speedScale cfg = Fin s \<Longrightarrow> scaledSpeed cfg (\<lambda>x y. (Fin 0, Fin 0)) x y = Fin 0"
  by (simp add: scaledSpeed_def)

lemma traceLoop_done: "\<not> i < verticesPerLine cfg \<Longrightarrow> traceLoop cfg f c i x y t line = line"
  by (subst traceLoop.simps) simp

lemma traceLoop_stop:
  "scaledSpeed cfg f x y < minSpeedThreshold cfg \<Longrightarrow> traceLoop cfg f c i x y t line = line"
  by (subst traceLoop.simps) (simp add: scaledSpeed_def Let_def split: prod.splits)

lemma traceLoop_cases:
  "(traceLoop cfg f c i x y t line = line \<and> traceDivisors cfg f i x y = []) \<or>
   (i < verticesPerLine cfg \<and> \<not> scaledSpeed cfg f x y < minSpeedThreshold cfg \<and>
    (\<exists>x' y' t' v. traceLoop cfg f c i x y t line = traceLoop cfg f c (i + 1) x' y' t' (line @ [v]) \<and>
       traceDivisors cfg f i x y = scaledSpeed cfg f x y # traceDivisors cfg f (i + 1) x' y'))"
  by (subst (1 2) traceLoop.simps, subst (1 2) traceDivisors.simps)
    (auto simp: scaledSpeed_def Let_def split: prod.splits)

lemma traceLoop_prefix:
  "verticesPerLine cfg - i = n \<Longrightarrow> \<exists>ys. traceLoop cfg f c i x y t line = line @ ys"
proof (induction n arbitrary: i x y t line)
  case 0
  then show ?case by (simp add: traceLoop_done)
next
  case (Suc n)
  from traceLoop_cases[of cfg f c i x y t line] show ?case
  proof (elim disjE conjE exE)
    assume "traceLoop cfg f c i x y t line = line"
    then show ?thesis by simp
  next
    fix x' y' t' v
    assume e: "traceLoop cfg f c i x y t line = traceLoop cfg f c (i + 1) x' y' t' (line @ [v])"
    have "verticesPerLine cfg - (i + 1) = n" using Suc.prems by simp
    from Suc.IH[OF this, of x' y' t' "line @ [v]"] e show ?thesis by auto
  qed
qed


lemma traceLoop_divisors_length:
  "verticesPerLine cfg - i = n \<Longrightarrow>
   length (traceLoop cfg f c i x y t line) = length line + length (traceDivisors cfg f i x y)"
proof (induction n arbitrary: i x y t line)
  case 0
  then show ?case by (subst traceDivisors.simps) (simp add: traceLoop_done)
next
  case (Suc n)
  from traceLoop_cases[of cfg f c i x y t line] show ?case
  proof (elim disjE conjE exE)
    assume "traceLoop cfg f c i x y t line = line" "traceDivisors cfg f i x y = []"
    then show ?thesis by simp
  next
    fix x' y' t' v
    assume e: "traceLoop cfg f c i x y t line = traceLoop cfg f c (i + 1) x' y' t' (line @ [v])"
      "traceDivisors cfg f i x y = scaledSpeed cfg f x y # traceDivisors cfg f (i + 1) x' y'"
    have "verticesPerLine cfg - (i + 1) = n" using Suc.prems by simp
    from Suc.IH[OF this, of x' y' t' "line @ [v]"] e show ?thesis by auto
  qed
qed

lemma traceDivisors_cases:
  "traceDivisors cfg f i x y = [] \<or>
   (\<not> scaledSpeed cfg f x y < minSpeedThreshold cfg \<and> i < verticesPerLine cfg \<and>
    (\<exists>x' y'. traceDivisors cfg f i x y = scaledSpeed cfg f x y # traceDivisors cfg f (i + 1) x' y'))"
  by (subst (1 2) traceDivisors.simps) (auto simp: scaledSpeed_def Let_def split: prod.splits)

lemma not_less_threshold_nonzero: "0 < m \<Longrightarrow> \<not> v < Fin m \<Longrightarrow> v \<noteq> Fin 0"
  by auto

lemma traceDivisors_nonzero:
  assumes "minSpeedThreshold cfg = Fin m" "0 < m"
  shows "verticesPerLine cfg - i = n \<Longrightarrow> v \<in> set (traceDivisors cfg f i x y) \<Longrightarrow>
     v \<noteq> Fin 0 \<and> \<not> v < minSpeedThreshold cfg"
proof (induction n arbitrary: i x y)
  case 0
  then show ?case by (subst (asm) traceDivisors.simps) simp
next
  case (Suc n)
  from traceDivisors_cases[of cfg f i x y] show ?case
  proof
    assume "traceDivisors cfg f i x y = []"
    then show ?thesis using Suc.prems by simp
  next
    assume a: "\<not> scaledSpeed cfg f x y < minSpeedThreshold cfg \<and> i < verticesPerLine cfg \<and>
      (\<exists>x' y'. traceDivisors cfg f i x y = scaledSpeed cfg f x y # traceDivisors cfg f (i + 1) x' y')"
    then obtain x' y' where e: "traceDivisors cfg f i x y =
        scaledSpeed cfg f x y # traceDivisors cfg f (i + 1) x' y'" by blast
    from Suc.prems(2) e have "v = scaledSpeed cfg f x y \<or> v \<in> set (traceDivisors cfg f (i + 1) x' y')"
      by simp
    then show ?thesis
    proof
      assume "v = scaledSpeed cfg f x y"
      then show ?thesis using a assms not_less_threshold_nonzero by metis
    next
      assume "v \<in> set (traceDivisors cfg f (i + 1) x' y')"
      moreover have "verticesPerLine cfg - (i + 1) = n" using Suc.prems(1) by simp
      ultimately show ?thesis using Suc.IH by blast
    qed
  qed
qed

lemma trace_zero_field:
  assumes "speedScale cfg = Fin s" "minSpeedThreshold cfg = Fin m" "0 < m"
  shows "trace cfg (\<lambda>x y. (Fin 0, Fin 0)) x0 y0 cs = [\<lparr> position = (x0 * cs, y0 * cs), time = Fin 0 \<rparr>]"
proof -
  have "scaledSpeed cfg (\<lambda>x y. (Fin 0, Fin 0)) x0 y0 = Fin 0"
    using assms by (simp add: scaledSpeed_def)
  then have "scaledSpeed cfg (\<lambda>x y. (Fin 0, Fin 0)) x0 y0 < minSpeedThreshold cfg"
    using assms by simp
  then show ?thesis unfolding trace_def by (rule traceLoop_stop)
qed

lemma windTraceLoop_cases:
  "(windTraceLoop f sl t d c x y line = line \<and> windTraceDivisors f sl c x y = []) \<or>
   (c < 100 \<and> \<not> windSpeed f x y < MIN_SPEED_THRESHOLD \<and>
    (\<exists>x' y' t' d' v. windTraceLoop f sl t d c x y line = windTraceLoop f sl t' d' (c + 1) x' y' (line @ [v]) \<and>
       windTraceDivisors f sl c x y = windSpeed f x y # windTraceDivisors f sl (c + 1) x' y'))"
  apply (subst (1 2) windTraceLoop.simps, subst (1 2) windTraceDivisors.simps)
  apply (auto simp: windSpeed_def Let_def split: prod.splits)
  apply (intro exI conjI; rule refl)
  done

lemma windTraceLoop_stop:
  "windSpeed f x y < MIN_SPEED_THRESHOLD \<Longrightarrow> windTraceLoop f sl t d c x y line = line"
  using windTraceLoop_cases[of f sl t d c x y line] by auto

lemma windTraceLoop_divisors_length:
  "100 - c = n \<Longrightarrow>
   length (windTraceLoop f sl t d c x y line) = length line + length (windTraceDivisors f sl c x y)"
proof (induction n arbitrary: c x y t d line)
  case 0
  then show ?case
    by (subst windTraceLoop.simps, subst windTraceDivisors.simps) simp
next
  case (Suc n)
  from windTraceLoop_cases[of f sl t d c x y line] show ?case
  proof (elim disjE conjE exE)
    assume "windTraceLoop f sl t d c x y line = line" "windTraceDivisors f sl c x y = []"
    then show ?thesis by simp
  next
    fix x' y' t' d' v
    assume e: "windTraceLoop f sl t d c x y line = windTraceLoop f sl t' d' (c + 1) x' y' (line @ [v])"
      "windTraceDivisors f sl c x y = windSpeed f x y # windTraceDivisors f sl (c + 1) x' y'"
    have "100 - (c + 1) = n" using Suc.prems by simp
    from Suc.IH[OF this, of t' d' x' y' "line @ [v]"] e show ?thesis by auto
  qed
qed

lemma windTraceDivisors_nonzero:
  "100 - c = n \<Longrightarrow> v \<in> set (windTraceDivisors f sl c x y) \<Longrightarrow>
     v \<noteq> Fin 0 \<and> \<not> v < MIN_SPEED_THRESHOLD"
proof (induction n arbitrary: c x y)
  case 0
  then show ?case by (subst (asm) windTraceDivisors.simps) simp
next
  case (Suc n)
  from windTraceLoop_cases[of f sl "Fin 0" "Fin 0" c x y "[]"] show ?case
  proof (elim disjE conjE exE)
    assume "windTraceDivisors f sl c x y = []"
    then show ?thesis using Suc.prems by simp
  next
    fix x' y' t' d' w
    assume a: "\<not> windSpeed f x y < MIN_SPEED_THRESHOLD"
      and e: "windTraceDivisors f sl c x y = windSpeed f x y # windTraceDivisors f sl (c + 1) x' y'"
    from Suc.prems(2) e have "v = windSpeed f x y \<or> v \<in> set (windTraceDivisors f sl (c + 1) x' y')"
      by simp
    then show ?thesis
    proof
      assume "v = windSpeed f x y"
      then show ?thesis using a not_less_threshold_nonzero MIN_SPEED_THRESHOLD_pos
        by metis
    next
      assume "v \<in> set (windTraceDivisors f sl (c + 1) x' y')"
      moreover have "100 - (c + 1) = n" using Suc.prems(1) by simp
      ultimately show ?thesis using Suc.IH by blast
    qed
  qed
qed

text \<open>
  Claim C5. In \<open>trace\<close> (both the tracer of the flow module and the older one of the wind
  module), when the speed \<open>v\<close> of an iteration is exactly 0 or below the threshold, the
  loop returns the vertices it has, before any division; every \<open>v\<close> that the loop divides
  by is different from 0 and not below the threshold (there is one such \<open>v\<close> for every vertex
  after the first); and on the field that is zero everywhere the result is the single
  seed vertex, from every seed.
\<close>
theorem trace_speed_floor:
  "(scaledSpeed settings f x y = Fin 0 \<or> scaledSpeed settings f x y < minSpeedThreshold settings
      \<longrightarrow> traceLoop settings f cs i x y t line = line)
   \<and> (\<forall>v\<in>set (traceDivisors settings f 0 x0 y0). v \<noteq> Fin 0 \<and> \<not> v < minSpeedThreshold settings)
   \<and> length (trace settings f x0 y0 cs) = Suc (length (traceDivisors settings f 0 x0 y0))
   \<and> trace settings (\<lambda>x y. (Fin 0, Fin 0)) x0 y0 cs =
       [\<lparr> position = (x0 * cs, y0 * cs), time = Fin 0 \<rparr>]
   \<and> (windSpeed f x y = Fin 0 \<or> windSpeed f x y < MIN_SPEED_THRESHOLD
      \<longrightarrow> windTraceLoop f sl t d c x y wline = wline)
   \<and> (\<forall>v\<in>set (windTraceDivisors f sl 0 x0 y0). v \<noteq> Fin 0 \<and> \<not> v < MIN_SPEED_THRESHOLD)
   \<and> length (windTrace f x0 y0 sl) = Suc (length (windTraceDivisors f sl 0 x0 y0))
   \<and> windTrace (\<lambda>x y. (Fin 0, Fin 0)) x0 y0 sl =
       [\<lparr> position = (x0, y0), time = Fin 0, distance = Fin 0 \<rparr>]"
proof -
  obtain m where m: "minSpeedThreshold settings = Fin m" "0 < m"
    using settings_minSpeedThreshold by blast
  obtain s where s: "speedScale settings = Fin s"
    using settings_speedScale by blast
  obtain mw where mw: "MIN_SPEED_THRESHOLD = Fin mw" "0 < mw"
    using MIN_SPEED_THRESHOLD_pos by blast
  have a: "scaledSpeed settings f x y = Fin 0 \<or> scaledSpeed settings f x y < minSpeedThreshold settings
      \<longrightarrow> traceLoop settings f cs i x y t line = line"
  proof
    assume "scaledSpeed settings f x y = Fin 0 \<or> scaledSpeed settings f x y < minSpeedThreshold settings"
    then have "scaledSpeed settings f x y < minSpeedThreshold settings"
      using m by auto
    then show "traceLoop settings f cs i x y t line = line" by (rule traceLoop_stop)
  qed
  have b: "\<forall>v\<in>set (traceDivisors settings f 0 x0 y0). v \<noteq> Fin 0 \<and> \<not> v < minSpeedThreshold settings"
    using traceDivisors_nonzero[OF m refl] by blast
  have c: "length (trace settings f x0 y0 cs) = Suc (length (traceDivisors settings f 0 x0 y0))"
    by (simp add: trace_def traceLoop_divisors_length[OF refl])
  have d: "trace settings (\<lambda>x y. (Fin 0, Fin 0)) x0 y0 cs =
       [\<lparr> position = (x0 * cs, y0 * cs), time = Fin 0 \<rparr>]"
    by (rule trace_zero_field[OF s m])
  have a': "windSpeed f x y = Fin 0 \<or> windSpeed f x y < MIN_SPEED_THRESHOLD
      \<longrightarrow> windTraceLoop f sl t d c x y wline = wline"
  proof
    assume "windSpeed f x y = Fin 0 \<or> windSpeed f x y < MIN_SPEED_THRESHOLD"
    then have "windSpeed f x y < MIN_SPEED_THRESHOLD"
      unfolding mw(1) using mw(2) by auto
    then show "windTraceLoop f sl t d c x y wline = wline" by (rule windTraceLoop_stop)
  qed
  have b': "\<forall>v\<in>set (windTraceDivisors f sl 0 x0 y0). v \<noteq> Fin 0 \<and> \<not> v < MIN_SPEED_THRESHOLD"
    using windTraceDivisors_nonzero[OF refl] by blast
  have c': "length (windTrace f x0 y0 sl) = Suc (length (windTraceDivisors f sl 0 x0 y0))"
    by (simp add: windTrace_def windTraceLoop_divisors_length[OF refl])
  have "windSpeed (\<lambda>x y. (Fin 0, Fin 0)) x0 y0 < MIN_SPEED_THRESHOLD"
    unfolding mw(1) using mw(2) by (simp add: windSpeed_def)
  then have d': "windTrace (\<lambda>x y. (Fin 0, Fin 0)) x0 y0 sl =
       [\<lparr> position = (x0, y0), time = Fin 0, distance = Fin 0 \<rparr>]"
    unfolding windTrace_def by (rule windTraceLoop_stop)
  from a b c d a' b' c' d' show ?thesis by blast
qed

theorem trace_speed_floor_witness:
  "traceLoop settings (\<lambda>x y. (Fin 0, Fin 0)) (Fin 2) 0 (Fin 3) (Fin 4) (Fin 0) [] = []
   \<and> trace settings (\<lambda>x y. (Fin 0, Fin 0)) (Fin 3) (Fin 4) (Fin 2) =
       [\<lparr> position = (Fin 6, Fin 8), time = Fin 0 \<rparr>]
   \<and> length (traceDivisors settings (\<lambda>x y. (Fin 0, Fin 0)) 0 (Fin 3) (Fin 4)) = 0
   \<and> windTraceLoop (\<lambda>x y. (Fin 0, Fin 0)) (Fin 3) (Fin 0) (Fin 0) 0 (Fin 3) (Fin 4) [] = []"
proof -
  have h: "scaledSpeed settings (\<lambda>x y. (Fin 0, Fin 0)) (Fin 3) (Fin 4) = Fin 0"
    using settings_speedScale scaledSpeed_zero by blast
  have h': "windSpeed (\<lambda>x y. (Fin 0, Fin 0)) (Fin 3) (Fin 4) = Fin 0"
    by (simp add: windSpeed_def)
  from trace_speed_floor[of "\<lambda>x y. (Fin 0, Fin 0)" "Fin 3" "Fin 4" "Fin 2" 0 "Fin 0" "[]"
      "Fin 3" "Fin 4" "Fin 3" "Fin 0" 0 "[]"] h h'
  show ?thesis by auto
qed








text \<open>
  One step from the seed \<open>(0, 0)\<close> in a field that has the value \<open>(1, 0)\<close> there: the
  speed is not below the threshold, and the step ends at least half a cell to the right,
  on the same row.
\<close>

lemma toDouble_in:
  assumes "lo \<le> x" "x \<le> hi" "2 powr of_int a = lo'" "lo' \<le> lo" "hi < hi'" "2 powr of_int b = hi'"
    "- 1022 \<le> a" "b \<le> 1023"
  shows "\<exists>y. toDouble x = Fin y \<and> lo' \<le> y \<and> y \<le> hi'"
proof -
  have "2 powr of_int a \<le> x" "x < 2 powr of_int b" using assms by linarith+
  from toDouble_between[OF this assms(7,8)] show ?thesis unfolding assms(3,6) .
qed

lemma pow2_values:
  "(2::real) powr of_int (- 8) = 1 / 256" "(2::real) powr of_int (- 4) = 1 / 16"
  "(2::real) powr of_int (- 3) = 1 / 8" "(2::real) powr of_int (- 2) = 1 / 4"
  "(2::real) powr of_int (- 1) = 1 / 2" "(2::real) powr of_int 0 = 1"
  "(2::real) powr of_int 3 = 8" "(2::real) powr of_int 4 = 16" "(2::real) powr of_int 7 = 128"
  "(2::real) powr of_int 8 = 256" "(2::real) powr of_int 9 = 512"
  by (simp_all add: powr_minus_divide)

lemma unit_speed:
  "\<exists>s1 v. Fin 1 * speedScale settings = Fin s1 \<and> Fin 0 * speedScale settings = Fin 0
     \<and> Math_sqrt (Fin s1 * Fin s1 + Fin 0 * Fin 0) = Fin v
     \<and> 1 / 16 \<le> s1 \<and> s1 \<le> 1 / 4 \<and> 1 / 16 \<le> v \<and> v \<le> 1"
proof -
  obtain s where s: "speedScale settings = Fin s" "1 / 16 \<le> s" "s \<le> 1 / 8"
    using settings_speedScale by blast
  obtain s1 where s1: "toDouble s = Fin s1" "1 / 16 \<le> s1" "s1 \<le> 1 / 4"
    using toDouble_in[of "1 / 16" s "1 / 8" "- 4" "1 / 16" "1 / 4" "- 2"] s pow2_values by auto
  have sq: "1 / 256 \<le> s1 * s1" "s1 * s1 \<le> 1 / 16"
    using s1(2,3) mult_mono[of "1 / 16" s1 "1 / 16" s1] mult_mono[of s1 "1 / 4" s1 "1 / 4"] by simp_all
  obtain q where q: "toDouble (s1 * s1) = Fin q" "1 / 256 \<le> q" "q \<le> 1 / 8"
    using toDouble_in[of "1 / 256" "s1 * s1" "1 / 16" "- 8" "1 / 256" "1 / 8" "- 3"] sq pow2_values
    by auto
  obtain q' where q': "toDouble q = Fin q'" "1 / 256 \<le> q'" "q' \<le> 1 / 4"
    using toDouble_in[of "1 / 256" q "1 / 8" "- 8" "1 / 256" "1 / 4" "- 2"] q pow2_values by auto
  have "sqrt (1 / 256) \<le> sqrt q'" "sqrt q' \<le> sqrt (1 / 4)"
    using q' by (simp_all only: real_sqrt_le_iff)
  moreover have "sqrt (1 / 256 :: real) = 1 / 16" "sqrt (1 / 4 :: real) = 1 / 2"
    by (simp_all add: real_sqrt_divide real_sqrt_unique)
  ultimately have r: "1 / 16 \<le> sqrt q'" "sqrt q' \<le> 1 / 2" by simp_all
  obtain v where v: "toDouble (sqrt q') = Fin v" "1 / 16 \<le> v" "v \<le> 1"
    using toDouble_in[of "1 / 16" "sqrt q'" "1 / 2" "- 4" "1 / 16" 1 0] r pow2_values by auto
  have "\<not> q' < 0" using q'(2) by simp
  then have "Math_sqrt (Fin s1 * Fin s1 + Fin 0 * Fin 0) = Fin v"
    by (simp add: q q' v)
  moreover have "Fin 1 * speedScale settings = Fin s1" "Fin 0 * speedScale settings = Fin 0"
    by (simp_all add: s s1)
  ultimately show ?thesis using s1 v by blast
qed

lemma trace_unit_start:
  assumes "f (Fin 0) (Fin 0) = (Fin 1, Fin 0)"
  shows "\<exists>x1 v t1 p. 1 / 2 \<le> x1 \<and> v \<noteq> Fin 0 \<and> \<not> v < minSpeedThreshold settings \<and>
     t1 = Fin 0 + Fin 10 / v \<and>
     trace settings f (Fin 0) (Fin 0) cs =
       traceLoop settings f cs 1 (Fin x1) (Fin 0) t1
         [\<lparr> position = (Fin 0 * cs, Fin 0 * cs), time = Fin 0 \<rparr>, \<lparr> position = p, time = t1 \<rparr>]"
proof -
  obtain s1 v where sv: "Fin 1 * speedScale settings = Fin s1" "Fin 0 * speedScale settings = Fin 0"
    "Math_sqrt (Fin s1 * Fin s1 + Fin 0 * Fin 0) = Fin v"
    "1 / 16 \<le> s1" "s1 \<le> 1 / 4" "1 / 16 \<le> v" "v \<le> 1"
    using unit_speed by blast
  obtain m where m: "minSpeedThreshold settings = Fin m" "0 < m" "m < 1 / 16"
    using settings_minSpeedThreshold by blast
  have nb: "\<not> Fin v < minSpeedThreshold settings" using m sv(6) by simp
  have v0: "v \<noteq> 0" "0 < v" using sv(6) by simp_all
  have "s1 * v \<le> s1 * 1" using sv(4,7) by (intro mult_left_mono) simp_all
  then have "s1 \<le> s1 / v" using v0 by (simp add: pos_le_divide_eq)
  then have lo: "1 / 16 \<le> s1 / v" using sv(4) by linarith
  have "s1 \<le> 4 * v" using sv(5,6) by linarith
  then have hi: "s1 / v \<le> 4" using v0 by (simp add: pos_divide_le_eq)
  obtain d where d: "toDouble (s1 / v) = Fin d" "1 / 16 \<le> d" "d \<le> 8"
    using toDouble_in[OF lo hi, of "- 4" "1 / 16" 8 3] pow2_values by auto
  have "1 / 2 \<le> d * 10" "d * 10 \<le> 80" using d by simp_all
  then obtain e where e: "toDouble (d * 10) = Fin e" "1 / 2 \<le> e" "e \<le> 128"
    using toDouble_in[of "1 / 2" "d * 10" 80 "- 1" "1 / 2" 128 7] pow2_values by auto
  obtain x1 where x1: "toDouble e = Fin x1" "1 / 2 \<le> x1" "x1 \<le> 256"
    using toDouble_in[of "1 / 2" e 128 "- 1" "1 / 2" 256 8] e pow2_values by auto
  have sl: "segmentLength settings = Fin 10" by (simp add: settings_def)
  have vp: "0 < verticesPerLine settings" by (simp add: settings_def)
  have dx: "Fin s1 / Fin v = Fin d" using v0 d by simp
  have dy: "Fin 0 / Fin v = Fin 0" using v0 by simp
  have xn: "Fin 0 + Fin d * Fin 10 = Fin x1" by (simp add: e x1)
  have yn: "Fin 0 + Fin 0 * Fin 10 = Fin 0" by simp
  have "traceLoop settings f cs 0 (Fin 0) (Fin 0) (Fin 0)
        [\<lparr> position = (Fin 0 * cs, Fin 0 * cs), time = Fin 0 \<rparr>] =
      traceLoop settings f cs 1 (Fin x1) (Fin 0) (Fin 0 + Fin 10 / Fin v)
        [\<lparr> position = (Fin 0 * cs, Fin 0 * cs), time = Fin 0 \<rparr>,
         \<lparr> position = (Fin x1 * cs, Fin 0 * cs), time = Fin 0 + Fin 10 / Fin v \<rparr>]"
    by (subst traceLoop.simps)
      (simp only: vp if_True assms prod.case Let_def sv(1,2,3) nb if_False sl dx dy xn yn
        append.simps One_nat_def add_0)
  moreover have "Fin v \<noteq> Fin 0" using v0 by simp
  ultimately show ?thesis unfolding trace_def using nb x1(2) by blast
qed



section \<open>The numbers of the mesh\<close>









section \<open>The stream lines and the cancellation\<close>

lemma draws_Suc_Suc:
  "draws rand g (2 * Suc n) =
     fst (rand g) # fst (rand (snd (rand g))) # draws rand (snd (rand (snd (rand g)))) (2 * n)"
  by simp

lemma length_draws: "length (draws rand g n) = n"
  by (induction n arbitrary: g) simp_all

lemma streamLinesLoop_eq:
  "streamLinesLoop cfg rand f cols rws cs n g lines =
     lines @ map (\<lambda>(x0, y0). trace cfg f x0 y0 cs) (seedPoints rand g cols rws n)"
proof (induction n arbitrary: g lines)
  case 0
  then show ?case by (simp add: seedPoints_def)
next
  case (Suc n)
  obtain r1 g1 where r1: "rand g = (r1, g1)" by (cases "rand g")
  obtain r2 g2 where r2: "rand g1 = (r2, g2)" by (cases "rand g1")
  have d: "draws rand g (2 * Suc n) = r1 # r2 # draws rand g2 (2 * n)"
    using r1 r2 by simp
  have up: "[0..<Suc n] = 0 # map Suc [0..<n]"
    by (simp add: upt_conv_Cons map_Suc_upt del: upt_Suc)
  have sp: "seedPoints rand g cols rws (Suc n) =
      (Math_round (r1 * Fin (real cols)), Math_round (r2 * Fin (real rws))) #
      seedPoints rand g2 cols rws n"
    unfolding seedPoints_def d up by (simp add: comp_def del: upt_Suc)
  show ?case
    using r1 r2 by (simp add: Suc.IH sp Let_def)
qed


lemma length_seedPoints: "length (seedPoints rand g cols rws n) = n"
  by (simp add: seedPoints_def)

lemma Math_round_scaled:
  assumes "0 \<le> r" "r < 1" "real n \<in> doubles"
  shows "\<exists>a. Math_round (Fin r * Fin (real n)) = Fin (of_int a) \<and> 0 \<le> a \<and> a \<le> int n"
proof -
  have "0 \<le> r * real n" using assms by simp
  moreover have "r * real n \<le> real n" using assms by (simp add: mult_left_le_one_le)
  ultimately obtain y where y: "toDouble (r * real n) = Fin y" "0 \<le> y" "y \<le> real n"
    using toDouble_le_float[OF assms(3)] by blast
  let ?a = "\<lfloor>y + 1 / 2\<rfloor>"
  have lo: "0 \<le> ?a" using y(2) by simp
  have "y + 1 / 2 < real n + 1" using y(3) by simp
  then have "?a < int n + 1" by (subst floor_less_iff) simp
  then have hi: "?a \<le> int n" by simp
  show ?thesis using lo hi y(1) by auto
qed

lemma seedPoints_range:
  assumes "\<forall>d\<in>set (draws rand g (2 * n)). \<exists>r. d = Fin r \<and> 0 \<le> r \<and> r < 1"
    and cr: "real cols \<in> doubles" "real rws \<in> doubles"
  shows "\<forall>(x0, y0)\<in>set (seedPoints rand g cols rws n).
     \<exists>a b. x0 = Fin (of_int a) \<and> y0 = Fin (of_int b) \<and>
       0 \<le> a \<and> a \<le> int cols \<and> 0 \<le> b \<and> b \<le> int rws"
proof -
  have "\<exists>a b. Math_round (draws rand g (2 * n) ! (2 * i) * Fin (real cols)) = Fin (of_int a) \<and>
      Math_round (draws rand g (2 * n) ! (2 * i + 1) * Fin (real rws)) = Fin (of_int b) \<and>
      0 \<le> a \<and> a \<le> int cols \<and> 0 \<le> b \<and> b \<le> int rws" if i: "i < n" for i
  proof -
    have "draws rand g (2 * n) ! (2 * i) \<in> set (draws rand g (2 * n))"
      "draws rand g (2 * n) ! (2 * i + 1) \<in> set (draws rand g (2 * n))"
      using i by (simp_all add: length_draws)
    then have "\<exists>r. draws rand g (2 * n) ! (2 * i) = Fin r \<and> 0 \<le> r \<and> r < 1"
      "\<exists>r. draws rand g (2 * n) ! (2 * i + 1) = Fin r \<and> 0 \<le> r \<and> r < 1"
      using assms by blast+
    then obtain r1 r2 where r: "draws rand g (2 * n) ! (2 * i) = Fin r1" "0 \<le> r1" "r1 < 1"
      "draws rand g (2 * n) ! (2 * i + 1) = Fin r2" "0 \<le> r2" "r2 < 1"
      by blast
    from Math_round_scaled[OF r(2,3) cr(1)] Math_round_scaled[OF r(5,6) cr(2)]
    show ?thesis unfolding r(1,4) by blast
  qed
  then show ?thesis by (auto simp: seedPoints_def)
qed

text \<open>
  Claim C7, as amended. \<open>getStreamLines\<close> returns \<open>linesPerVisualization\<close> lines: line
  number \<open>i\<close> is the trace from seed number \<open>i\<close>, the seeds are taken from consecutive
  draws of the generator (two draws for each seed, \<open>x0\<close> first), in the order of the
  draws, and each seed is traced once. A seed is not a point drawn over the rectangle
  \<open>[0, columns] \<times> [0, rows]\<close>: it is such a point rounded to integers, so when the draws
  are in \<open>[0, 1)\<close> (and the numbers of columns and rows are doubles, as they are in the
  program), every seed is a point with integer coordinates of that rectangle.
\<close>
theorem getStreamLines_seeds:
  "getStreamLines cfg rand g f cols rws cs =
     map (\<lambda>(x0, y0). trace cfg f x0 y0 cs) (seedPoints rand g cols rws (linesPerVisualization cfg))
   \<and> length (getStreamLines cfg rand g f cols rws cs) = linesPerVisualization cfg
   \<and> length (seedPoints rand g cols rws (linesPerVisualization cfg)) = linesPerVisualization cfg
   \<and> ((\<forall>d\<in>set (draws rand g (2 * linesPerVisualization cfg)). \<exists>r. d = Fin r \<and> 0 \<le> r \<and> r < 1)
        \<and> real cols \<in> doubles \<and> real rws \<in> doubles
        \<longrightarrow> (\<forall>(x0, y0)\<in>set (seedPoints rand g cols rws (linesPerVisualization cfg)).
              \<exists>a b. x0 = Fin (of_int a) \<and> y0 = Fin (of_int b) \<and>
                0 \<le> a \<and> a \<le> int cols \<and> 0 \<le> b \<and> b \<le> int rws))"
proof -
  have a: "getStreamLines cfg rand g f cols rws cs =
     map (\<lambda>(x0, y0). trace cfg f x0 y0 cs) (seedPoints rand g cols rws (linesPerVisualization cfg))"
    by (simp add: getStreamLines_def streamLinesLoop_eq)
  then have b: "length (getStreamLines cfg rand g f cols rws cs) = linesPerVisualization cfg"
    by (simp add: length_seedPoints)
  have c: "length (seedPoints rand g cols rws (linesPerVisualization cfg)) = linesPerVisualization cfg"
    by (rule length_seedPoints)
  have d: "(\<forall>d\<in>set (draws rand g (2 * linesPerVisualization cfg)). \<exists>r. d = Fin r \<and> 0 \<le> r \<and> r < 1)
        \<and> real cols \<in> doubles \<and> real rws \<in> doubles
        \<longrightarrow> (\<forall>(x0, y0)\<in>set (seedPoints rand g cols rws (linesPerVisualization cfg)).
              \<exists>a b. x0 = Fin (of_int a) \<and> y0 = Fin (of_int b) \<and>
                0 \<le> a \<and> a \<le> int cols \<and> 0 \<le> b \<and> b \<le> int rws)"
  proof
    assume h: "(\<forall>d\<in>set (draws rand g (2 * linesPerVisualization cfg)). \<exists>r. d = Fin r \<and> 0 \<le> r \<and> r < 1)
        \<and> real cols \<in> doubles \<and> real rws \<in> doubles"
    show "\<forall>(x0, y0)\<in>set (seedPoints rand g cols rws (linesPerVisualization cfg)).
              \<exists>a b. x0 = Fin (of_int a) \<and> y0 = Fin (of_int b) \<and>
                0 \<le> a \<and> a \<le> int cols \<and> 0 \<le> b \<and> b \<le> int rws"
      by (rule seedPoints_range)
        (rule h[THEN conjunct1], rule h[THEN conjunct2, THEN conjunct1],
         rule h[THEN conjunct2, THEN conjunct2])
  qed
  show ?thesis by (intro conjI a b c d)
qed

theorem getStreamLines_seeds_witness:
  "length (getStreamLines settings (\<lambda>g::unit. (Fin (1 / 2), g)) () (\<lambda>x y. (Fin 0, Fin 0)) 4 3 (Fin 1)) = 4000
   \<and> (\<exists>a b. seedPoints (\<lambda>g::unit. (Fin (1 / 2), g)) () 4 3 (linesPerVisualization settings) ! 0 =
          (Fin (of_int a), Fin (of_int b)) \<and> 0 \<le> a \<and> a \<le> 4 \<and> 0 \<le> b \<and> b \<le> 3)"
proof -
  let ?rand = "\<lambda>g::unit. (Fin (1 / 2), g)"
  have d: "set (draws ?rand g n) \<subseteq> {Fin (1 / 2)}" for g n
    by (induction n arbitrary: g) auto
  have h0: "\<forall>d\<in>set (draws ?rand () (2 * linesPerVisualization settings)).
      \<exists>r. d = Fin r \<and> 0 \<le> r \<and> r < 1"
    using d by fastforce
  have c4: "real 4 \<in> doubles" and c3: "real 3 \<in> doubles"
    by (rule nat_double, simp)+
  have h: "(\<forall>d\<in>set (draws ?rand () (2 * linesPerVisualization settings)).
      \<exists>r. d = Fin r \<and> 0 \<le> r \<and> r < 1) \<and> real 4 \<in> doubles \<and> real 3 \<in> doubles"
    by (intro conjI h0 c4 c3)
  have n: "linesPerVisualization settings = 4000" by (simp add: settings_def)
  have m: "seedPoints ?rand () 4 3 (linesPerVisualization settings) ! 0
      \<in> set (seedPoints ?rand () 4 3 (linesPerVisualization settings))"
    by (rule nth_mem) (simp add: length_seedPoints settings_def)
  note t = getStreamLines_seeds[of settings ?rand "()" "\<lambda>x y. (Fin 0, Fin 0)" 4 3 "Fin 1"]
  have l0: "length (getStreamLines settings ?rand () (\<lambda>x y. (Fin 0, Fin 0)) 4 3 (Fin 1)) =
        linesPerVisualization settings"
    by (rule t[THEN conjunct2, THEN conjunct1])
  have r: "\<forall>(x0, y0)\<in>set (seedPoints ?rand () 4 3 (linesPerVisualization settings)).
              \<exists>a b. x0 = Fin (of_int a) \<and> y0 = Fin (of_int b) \<and>
                0 \<le> a \<and> a \<le> int 4 \<and> 0 \<le> b \<and> b \<le> int 3"
    by (rule mp[OF t[THEN conjunct2, THEN conjunct2, THEN conjunct2] h])
  have l: "length (getStreamLines settings ?rand () (\<lambda>x y. (Fin 0, Fin 0)) 4 3 (Fin 1)) = 4000"
    unfolding l0 by (rule n)
  obtain x0 y0 where p: "seedPoints ?rand () 4 3 (linesPerVisualization settings) ! 0 = (x0, y0)"
    by (cases "seedPoints ?rand () 4 3 (linesPerVisualization settings) ! 0")
  from bspec[OF r m] have "\<exists>a b. x0 = Fin (of_int a) \<and> y0 = Fin (of_int b) \<and>
                0 \<le> a \<and> a \<le> int 4 \<and> 0 \<le> b \<and> b \<le> int 3"
    unfolding p by simp
  then have "\<exists>a b. seedPoints ?rand () 4 3 (linesPerVisualization settings) ! 0 =
          (Fin (of_int a), Fin (of_int b)) \<and> 0 \<le> a \<and> a \<le> 4 \<and> 0 \<le> b \<and> b \<le> 3"
    unfolding p by simp
  with l show ?thesis by blast
qed

text \<open>
  With 4 columns and rows, the draw \<open>5/16\<close> (twice) gives the seed \<open>(1, 1)\<close> and not the
  point \<open>(1.25, 1.25)\<close>; among the doubles of \<open>[0, 1)\<close>, the draws that give the
  coordinate 0, at the border, are those of \<open>[0, 1/8)\<close>, an interval half as long as that
  of the draws that give the coordinate 1, \<open>[1/8, 3/8)\<close>.
\<close>

lemma draws_two: "draws rand g 2 = [fst (rand g), fst (rand (snd (rand g)))]"
  by (simp add: numeral_2_eq_2)

lemma toDouble_five_quarters: "toDouble (5 / 4) = Fin (5 / 4)"
proof -
  have e: "(5 / 4 :: real) = of_int 5 * 2 powr of_int (- 2)"
    by (simp add: powr_minus_divide)
  have "of_int 5 * 2 powr of_int (- 2) \<in> doubles"
    by (rule dyadic_double) simp_all
  then have "(5 / 4 :: real) \<in> doubles"
    unfolding e .
  then show ?thesis by (rule toDouble_float)
qed

lemma seedPoints_five_sixteenths:
  "seedPoints (\<lambda>g::unit. (Fin (5 / 16), g)) () 4 4 1 = [(Fin 1, Fin 1)]"
proof -
  have f: "\<lfloor>(7::real) / 4\<rfloor> = 1" by (simp add: floor_eq_iff)
  show ?thesis
    unfolding seedPoints_def by (simp add: draws_two toDouble_five_quarters f)
qed

lemma floor_scaled_zero: "\<lfloor>r * 4 + 1 / 2\<rfloor> = 0 \<longleftrightarrow> - 1 / 8 \<le> r \<and> r < 1 / 8" for r :: real
  unfolding floor_eq_iff by auto

lemma floor_scaled_one: "\<lfloor>r * 4 + 1 / 2\<rfloor> = 1 \<longleftrightarrow> 1 / 8 \<le> r \<and> r < 3 / 8" for r :: real
  unfolding floor_eq_iff by auto

lemma Math_round_times_four:
  assumes "r \<in> doubles" "0 \<le> r" "r < 1"
  shows "Math_round (Fin r * Fin (real 4)) = Fin (of_int \<lfloor>r * 4 + 1 / 2\<rfloor>)"
proof -
  have "r * 4 \<in> doubles" using assms by (intro doubles_times_four) simp_all
  then have "toDouble (r * 4) = Fin (r * 4)" by (rule toDouble_float)
  then show ?thesis by simp
qed

theorem getStreamLines_seeds_counterexample:
  "seedPoints (\<lambda>g::unit. (Fin (5 / 16), g)) () 4 4 1 = [(Fin 1, Fin 1)]
   \<and> {r \<in> doubles. 0 \<le> r \<and> r < 1 \<and> Math_round (Fin r * Fin (real 4)) = Fin 0} =
       {r \<in> doubles. 0 \<le> r \<and> r < 1 / 8}
   \<and> {r \<in> doubles. 0 \<le> r \<and> r < 1 \<and> Math_round (Fin r * Fin (real 4)) = Fin 1} =
       {r \<in> doubles. 1 / 8 \<le> r \<and> r < 3 / 8}"
proof -
  have b: "{r \<in> doubles. 0 \<le> r \<and> r < 1 \<and> Math_round (Fin r * Fin (real 4)) = Fin 0} =
       {r \<in> doubles. 0 \<le> r \<and> r < 1 / 8}"
  proof (rule set_eqI)
    fix r :: real
    show "r \<in> {r \<in> doubles. 0 \<le> r \<and> r < 1 \<and> Math_round (Fin r * Fin (real 4)) = Fin 0} \<longleftrightarrow>
        r \<in> {r \<in> doubles. 0 \<le> r \<and> r < 1 / 8}"
    proof (cases "r \<in> doubles \<and> 0 \<le> r \<and> r < 1")
      case True
      then have "Math_round (Fin r * Fin (real 4)) = Fin 0 \<longleftrightarrow> \<lfloor>r * 4 + 1 / 2\<rfloor> = 0"
        using Math_round_times_four[of r] by simp
      then show ?thesis using True unfolding floor_scaled_zero by auto
    next
      case False
      then show ?thesis by auto
    qed
  qed
  have c: "{r \<in> doubles. 0 \<le> r \<and> r < 1 \<and> Math_round (Fin r * Fin (real 4)) = Fin 1} =
       {r \<in> doubles. 1 / 8 \<le> r \<and> r < 3 / 8}"
  proof (rule set_eqI)
    fix r :: real
    show "r \<in> {r \<in> doubles. 0 \<le> r \<and> r < 1 \<and> Math_round (Fin r * Fin (real 4)) = Fin 1} \<longleftrightarrow>
        r \<in> {r \<in> doubles. 1 / 8 \<le> r \<and> r < 3 / 8}"
    proof (cases "r \<in> doubles \<and> 0 \<le> r \<and> r < 1")
      case True
      then have "Math_round (Fin r * Fin (real 4)) = Fin 1 \<longleftrightarrow> \<lfloor>r * 4 + 1 / 2\<rfloor> = 1"
        using Math_round_times_four[of r] by simp
      then show ?thesis using True unfolding floor_scaled_one by auto
    next
      case False
      then show ?thesis by auto
    qed
  qed
  from seedPoints_five_sixteenths b c show ?thesis by blast
qed

lemma meshLine_nonempty:
  "line \<noteq> [] \<Longrightarrow>
   meshLine rand line g acc =
     Inr (snd (rand g), segmentLoop line (fst (rand g)) (time (last line)) 1 acc)"
  by (simp add: meshLine_def Let_def split: prod.splits)

lemma ex_less_Suc_shift: "(\<exists>r<Suc n. P r) \<longleftrightarrow> P 0 \<or> (\<exists>r<n. P (Suc r))"
  by (metis less_Suc_eq_0_disj)

lemma meshLoop_char:
  assumes "\<forall>l\<in>set lines. l \<noteq> []"
  shows "meshLoop env cfg rand lines rt nc rs g acc =
     (if \<exists>r<restsTaken env cfg rt nc (length lines). signalAborted env (rs + r)
      then Inl AbortError else Inr (meshLines rand lines g acc))"
  using assms
proof (induction lines arbitrary: rt nc rs g acc)
  case Nil
  then show ?case by simp
next
  case (Cons line lines)
  then have ne: "line \<noteq> []" and rest: "\<forall>l\<in>set lines. l \<noteq> []" by simp_all
  note ml = meshLine_nonempty[OF ne, of rand g acc]
  let ?ct = "performanceNow env nc"
  show ?case
  proof (cases "flowProcessingQuanta cfg < ?ct - rt")
    case False
    then show ?thesis
      using Cons.IH[OF rest] by (simp add: ml Let_def)
  next
    case fire: True
    show ?thesis
    proof (cases "signalAborted env rs")
      case True
      then show ?thesis using fire by (auto simp: Let_def rest_def)
    next
      case False
      have "meshLoop env cfg rand (line # lines) rt nc rs g acc =
          meshLoop env cfg rand lines ?ct (nc + 1) (rs + 1) (snd (rand g))
            (segmentLoop line (fst (rand g)) (time (last line)) 1 acc)"
        using fire False by (simp add: ml Let_def rest_def)
      also have "\<dots> = (if \<exists>r<restsTaken env cfg ?ct (nc + 1) (length lines). signalAborted env (rs + 1 + r)
          then Inl AbortError
          else Inr (meshLines rand lines (snd (rand g))
            (segmentLoop line (fst (rand g)) (time (last line)) 1 acc)))"
        by (rule Cons.IH[OF rest])
      also have "\<dots> = (if \<exists>r<restsTaken env cfg rt nc (length (line # lines)). signalAborted env (rs + r)
          then Inl AbortError else Inr (meshLines rand (line # lines) g acc))"
        using fire False by (simp add: Let_def ex_less_Suc_shift)
      finally show ?thesis .
    qed
  qed
qed

lemma trace_nonempty: "trace cfg f x0 y0 cs \<noteq> []"
proof -
  obtain ys where "trace cfg f x0 y0 cs =
      [\<lparr> position = (x0 * cs, y0 * cs), time = Fin 0 \<rparr>] @ ys"
    unfolding trace_def using traceLoop_prefix[OF refl] by blast
  then show ?thesis by simp
qed

lemma createStreamLinesMesh_char:
  "createStreamLinesMesh env cfg rand gLines gMesh flowData =
     (if \<exists>r<restsTaken env cfg (performanceNow env 0) 1 (linesPerVisualization cfg). signalAborted env r
      then Inl AbortError
      else Inr (completeMesh rand gMesh
                 (getStreamLines cfg rand gLines (createFlowFieldFromData cfg flowData)
                    (columns flowData) (rows flowData) (cellSize flowData))))"
proof -
  let ?lines = "getStreamLines cfg rand gLines (createFlowFieldFromData cfg flowData)
                    (columns flowData) (rows flowData) (cellSize flowData)"
  have eq: "?lines = map (\<lambda>(x0, y0). trace cfg (createFlowFieldFromData cfg flowData) x0 y0 (cellSize flowData))
      (seedPoints rand gLines (columns flowData) (rows flowData) (linesPerVisualization cfg))"
    by (simp add: getStreamLines_def streamLinesLoop_eq)
  have len: "length ?lines = linesPerVisualization cfg"
    unfolding eq by (simp add: length_seedPoints)
  have ne: "\<forall>l\<in>set ?lines. l \<noteq> []"
    unfolding eq by (auto simp: trace_nonempty)
  have "meshLoop env cfg rand ?lines (performanceNow env 0) 1 0 gMesh (0, [], []) =
      (if \<exists>r<restsTaken env cfg (performanceNow env 0) 1 (linesPerVisualization cfg). signalAborted env (0 + r)
       then Inl AbortError else Inr (meshLines rand ?lines gMesh (0, [], [])))"
    using meshLoop_char[OF ne, of env cfg rand "performanceNow env 0" 1 0 gMesh "(0, [], [])"]
    unfolding len .
  then show ?thesis
    by (simp add: createStreamLinesMesh_def meshOfLines_def completeMesh_def Let_def
        split: prod.splits)
qed


text \<open>
  Claim C9, as amended. The signal is looked at only in a rest, and a rest is taken only
  at the start of a line, when the clock has advanced by more than \<open>flowProcessingQuanta\<close>
  since the last rest (or the start of the loop). The call is cancelled, and returns no
  mesh, exactly when the signal is aborted at one of the rests that are taken; otherwise it
  returns the complete mesh of all lines. So a mesh that is returned is never partial; but
  when no rest is taken, a signal set before the call does not cancel it.
\<close>
theorem createStreamLinesMesh_cancellation:
  "createStreamLinesMesh env cfg rand gLines gMesh flowData =
     (if \<exists>r<restsTaken env cfg (performanceNow env 0) 1 (linesPerVisualization cfg). signalAborted env r
      then Inl AbortError
      else Inr (completeMesh rand gMesh
                 (getStreamLines cfg rand gLines (createFlowFieldFromData cfg flowData)
                    (columns flowData) (rows flowData) (cellSize flowData))))"
  by (rule createStreamLinesMesh_char)

lemma restsTaken_first:
  "flowProcessingQuanta cfg < performanceNow env nc - rt \<Longrightarrow> 0 < restsTaken env cfg rt nc (Suc n)"
  by (simp add: Let_def)

theorem createStreamLinesMesh_cancellation_witness:
  "createStreamLinesMesh \<lparr> performanceNow = (\<lambda>k. Fin (1000 * real k)), signalAborted = (\<lambda>k. True) \<rparr>
      settings (\<lambda>g::unit. (Fin (1 / 2), g)) () ()
      \<lparr> data = [Fin 0, Fin 0], columns = 1, rows = 1, cellSize = Fin 1 \<rparr> = Inl AbortError"
proof -
  let ?env = "\<lparr> performanceNow = (\<lambda>k. Fin (1000 * real k)), signalAborted = (\<lambda>k. True) \<rparr>"
  have n: "linesPerVisualization settings = Suc 3999" by (simp add: settings_def)
  have "flowProcessingQuanta settings < performanceNow ?env 1 - performanceNow ?env 0"
    by (simp add: settings_def minus_number_def)
  then have "0 < restsTaken ?env settings (performanceNow ?env 0) 1 (linesPerVisualization settings)"
    unfolding n by (rule restsTaken_first)
  then have "\<exists>r<restsTaken ?env settings (performanceNow ?env 0) 1 (linesPerVisualization settings).
      signalAborted ?env r"
    by auto
  then show ?thesis
    using createStreamLinesMesh_cancellation[of ?env settings "\<lambda>g::unit. (Fin (1 / 2), g)" "()" "()"
        "\<lparr> data = [Fin 0, Fin 0], columns = 1, rows = 1, cellSize = Fin 1 \<rparr>"]
    by (simp only: if_True)
qed

lemma restsTaken_const:
  assumes "\<forall>k. performanceNow env k = Fin 0" "flowProcessingQuanta cfg = Fin 100"
  shows "restsTaken env cfg (Fin 0) nc n = 0"
  using assms by (induction n arbitrary: nc) (simp_all add: Let_def minus_number_def)

lemma meshLines_single_vertices:
  "\<forall>l\<in>set lines. length l = 1 \<Longrightarrow> meshLines rand lines g acc = acc"
proof (induction lines arbitrary: g acc)
  case Nil
  then show ?case by simp
next
  case (Cons line lines)
  obtain vc vd ix where acc: "acc = (vc, vd, ix)" by (metis prod_cases3)
  have "segmentLoop line (fst (rand g)) (time (last line)) 1 acc = acc"
    unfolding acc using Cons.prems by (subst segmentLoop.simps) simp
  then show ?case using Cons by simp
qed

theorem cancellation_counterexample:
  "createStreamLinesMesh \<lparr> performanceNow = (\<lambda>k. Fin 0), signalAborted = (\<lambda>k. True) \<rparr>
      settings (\<lambda>g::unit. (Fin (1 / 2), g)) () ()
      \<lparr> data = [Fin 0, Fin 0], columns = 1, rows = 1, cellSize = Fin 1 \<rparr> =
    Inr \<lparr> vertexData = [], indexData = [] \<rparr>"
proof -
  let ?env = "\<lparr> performanceNow = (\<lambda>k. Fin 0), signalAborted = (\<lambda>k. True) \<rparr>"
  let ?rand = "\<lambda>g::unit. (Fin (1 / 2), g)"
  let ?fd = "\<lparr> data = [Fin 0, Fin 0], columns = 1, rows = 1, cellSize = Fin 1 \<rparr>"
  let ?f = "createFlowFieldFromData settings ?fd"
  let ?N = "linesPerVisualization settings"
  let ?lines = "getStreamLines settings ?rand () ?f (columns ?fd) (rows ?fd) (cellSize ?fd)"
  have rt: "restsTaken ?env settings (performanceNow ?env 0) 1 ?N = 0"
    using restsTaken_const[of ?env settings 1 ?N] by (simp add: settings_def)
  have d: "set (draws ?rand g n) \<subseteq> {Fin (1 / 2)}" for g n
    by (induction n arbitrary: g) auto
  have dn: "draws ?rand () (2 * ?N) ! k = Fin (1 / 2)" if "k < 2 * ?N" for k
  proof -
    have "draws ?rand () (2 * ?N) ! k \<in> set (draws ?rand () (2 * ?N))"
      by (rule nth_mem) (simp add: length_draws that)
    then show ?thesis using d[of "()" "2 * ?N"] by blast
  qed
  have fl: "\<lfloor>(1::real)\<rfloor> = 1" by simp
  have seeds: "\<forall>p\<in>set (seedPoints ?rand () 1 1 ?N). p = (Fin 1, Fin 1)"
    unfolding seedPoints_def using dn by (auto simp: fl)
  have f0: "?f (Fin 1) (Fin 1) = (Fin 0, Fin 0)"
    by (simp add: createFlowFieldFromData_def Let_def)
  obtain s where s: "speedScale settings = Fin s"
    using settings_speedScale by blast
  obtain m where m: "minSpeedThreshold settings = Fin m" "0 < m"
    using settings_minSpeedThreshold by blast
  have "scaledSpeed settings ?f (Fin 1) (Fin 1) < minSpeedThreshold settings"
    unfolding scaledSpeed_def f0 using m(2) by (simp add: s m(1))
  then have tr: "trace settings ?f (Fin 1) (Fin 1) (Fin 1) =
      [\<lparr> position = (Fin 1 * Fin 1, Fin 1 * Fin 1), time = Fin 0 \<rparr>]"
    unfolding trace_def by (rule traceLoop_stop)
  have eq: "?lines = map (\<lambda>(x0, y0). trace settings ?f x0 y0 (Fin 1)) (seedPoints ?rand () 1 1 ?N)"
    by (simp add: getStreamLines_def streamLinesLoop_eq)
  have "\<forall>l\<in>set ?lines. length l = 1"
    unfolding eq using seeds tr by auto
  then have "meshLines ?rand ?lines () (0, [], []) = (0, [], [])"
    by (rule meshLines_single_vertices)
  then have cm: "completeMesh ?rand () ?lines = \<lparr> vertexData = [], indexData = [] \<rparr>"
    by (simp add: completeMesh_def Float32Array_def Uint32Array_def)
  show ?thesis
    using createStreamLinesMesh_char[of ?env settings ?rand "()" "()" ?fd]
    unfolding rt cm by simp
qed

section \<open>The local and the delegated processor\<close>

subsection \<open>A grid of one cell\<close>

lemma fold_skip:
  "\<forall>d\<in>set ds. f d acc = acc \<Longrightarrow> fold f ds acc = acc"
  by (induction ds) simp_all

lemma kernel_split: "0 \<le> h \<Longrightarrow> [- h .. h] = [- h .. - 1] @ 0 # [1 .. h]"
proof (cases "h = 0")
  case True
  then show ?thesis by simp
next
  case False
  assume h: "0 \<le> (h::int)"
  have "[- h .. h] = [- h .. -1] @ [-1 + 1 .. h]"
    using h False by (intro upto_split2) auto
  also have "[-1 + 1 .. h] = 0 # [1 .. h]"
    using h by (simp add: upto_rec1)
  finally show ?thesis .
qed

lemma fold_kernel_single:
  assumes "0 \<le> h" "\<And>d acc. d \<noteq> 0 \<Longrightarrow> f d acc = acc"
  shows "fold f [- h .. h] acc = f 0 acc"
proof -
  have a: "fold f [- h .. - 1] acc = acc"
    by (rule fold_skip) (simp add: assms(2))
  have b: "fold f [1 .. h] (f 0 acc) = f 0 acc"
    by (rule fold_skip) (simp add: assms(2))
  show ?thesis
    unfolding kernel_split[OF assms(1)] by (simp add: a b)
qed

lemma halfRadius_ten: "kernelOffsets (halfRadius 10) = [- 30 .. 30]"
proof -
  have "\<lfloor>(61::real) / 2\<rfloor> = 30" by (simp add: floor_eq_iff)
  then show ?thesis by (simp add: halfRadius_def kernelOffsets_def)
qed

lemma kernelWeight_ten: "kernelWeight 10 0 = Fin 1"
  by (simp add: kernelWeight_def)

lemma horizontalSums_single:
  "horizontalSums [a, b] 1 10 0 0 = (Fin 0 + Fin 1, Fin 0 + Fin 1 * a, Fin 0 + Fin 1 * b)"
proof -
  have skip: "horizontalStep [a, b] 1 10 0 0 d acc = acc" if "d \<noteq> 0" for d acc
    using that by (auto simp: horizontalStep_def split: prod.splits)
  have "fold (horizontalStep [a, b] 1 10 0 0) [- 30 .. 30] (Fin 0, Fin 0, Fin 0)
      = horizontalStep [a, b] 1 10 0 0 0 (Fin 0, Fin 0, Fin 0)"
    by (rule fold_kernel_single[OF _ skip]) simp_all
  also have "\<dots> = (Fin 0 + Fin 1, Fin 0 + Fin 1 * a, Fin 0 + Fin 1 * b)"
    by (simp add: horizontalStep_def kernelWeight_ten readAt_def Let_def)
  finally show ?thesis
    unfolding horizontalSums_def halfRadius_ten .
qed

lemma verticalSums_single:
  "verticalSums [a, b] 1 1 10 0 0 = (Fin 0 + Fin 1, Fin 0 + Fin 1 * a, Fin 0 + Fin 1 * b)"
proof -
  have skip: "verticalStep [a, b] 1 1 10 0 0 d acc = acc" if "d \<noteq> 0" for d acc
    using that by (auto simp: verticalStep_def split: prod.splits)
  have "fold (verticalStep [a, b] 1 1 10 0 0) [- 30 .. 30] (Fin 0, Fin 0, Fin 0)
      = verticalStep [a, b] 1 1 10 0 0 0 (Fin 0, Fin 0, Fin 0)"
    by (rule fold_kernel_single[OF _ skip]) simp_all
  also have "\<dots> = (Fin 0 + Fin 1, Fin 0 + Fin 1 * a, Fin 0 + Fin 1 * b)"
    by (simp add: verticalStep_def kernelWeight_ten readAt_def Let_def)
  finally show ?thesis
    unfolding verticalSums_def halfRadius_ten .
qed

lemma smooth_single:
  "smooth settings [Fin 1, Fin 0] 1 1 10 = [Fin 1, Fin 0]"
proof -
  obtain m where m: "minWeightThreshold settings = Fin m" "m < 1"
    using settings_minWeightThreshold by blast
  have hp: "horizontalPass settings [Fin 1, Fin 0] 1 1 10 = [Fin 1, Fin 0]"
    using horizontalSums_single[of "Fin 1" "Fin 0"] m(2)
    by (simp add: horizontalPass_def storeCell_def m(1))
  show ?thesis
    unfolding smooth_def hp Let_def
    using verticalSums_single[of "Fin 1" "Fin 0"] m(2)
    by (simp add: verticalPass_def storeCell_def m(1))
qed

lemma segmentCount_pairs:
  "\<forall>l\<in>set ls. length l = 2 \<Longrightarrow> segmentCount ls = length ls"
  by (induction ls) (simp_all add: segmentCount_def)

lemma meshLines_shape:
  assumes "\<forall>l\<in>set lines. l \<noteq> []"
  shows "\<exists>vc vd ix. meshLines rand lines g (0, [], []) = (vc, vd, ix)
     \<and> length vd = 36 * segmentCount lines \<and> length ix = 6 * segmentCount lines"
proof -
  let ?env = "\<lparr> performanceNow = (\<lambda>k. Fin 0), signalAborted = (\<lambda>k. False) \<rparr>"
  have c: "meshLoop ?env settings rand lines (Fin 0) 1 0 g (0, [], []) =
      Inr (meshLines rand lines g (0, [], []))"
    using meshLoop_char[OF assms, of ?env settings rand "Fin 0" 1 0 g "(0, [], [])"] by simp
  have l: "length (concat (map (\<lambda>b. segmentIndices (0 + 4 * b)) [0..<segmentCount lines])) =
      6 * segmentCount lines"
    by (simp add: length_concat comp_def length_segmentIndices sum_list_triv)
  from meshLoop_shape[OF assms, of ?env settings rand "Fin 0" 1 0 g 0 "[]" "[]"] c l
  show ?thesis by auto
qed

lemma completeMesh_lengths:
  assumes "\<forall>l\<in>set lines. l \<noteq> []"
  shows "length (vertexData (completeMesh rand g lines)) = 36 * segmentCount lines
     \<and> length (indexData (completeMesh rand g lines)) = 6 * segmentCount lines"
proof -
  obtain vc vd ix where m: "meshLines rand lines g (0, [], []) = (vc, vd, ix)"
    and l: "length vd = 36 * segmentCount lines" "length ix = 6 * segmentCount lines"
    using meshLines_shape[OF assms, of rand g] by blast
  show ?thesis
    by (simp add: completeMesh_def m l Uint32Array_def)
qed

lemma field_single:
  "createFlowFieldFromData settings
      \<lparr> data = [Fin 1, Fin 0], columns = 1, rows = 1, cellSize = Fin 1 \<rparr> (Fin 0) (Fin 0) = (Fin 1, Fin 0)"
  "1 / 2 \<le> x1 \<Longrightarrow> createFlowFieldFromData settings
      \<lparr> data = [Fin 1, Fin 0], columns = 1, rows = 1, cellSize = Fin 1 \<rparr> (Fin x1) (Fin 0) = (Fin 0, Fin 0)"
proof -
  have s: "smoothing settings = 10" by (simp add: settings_def)
  show "createFlowFieldFromData settings
      \<lparr> data = [Fin 1, Fin 0], columns = 1, rows = 1, cellSize = Fin 1 \<rparr> (Fin 0) (Fin 0) = (Fin 1, Fin 0)"
    unfolding createFlowFieldFromData_def
    by (simp add: s smooth_single[unfolded One_nat_def] readAt_def Let_def)
  assume "1 / 2 \<le> x1"
  then have "1 \<le> \<lfloor>x1 + 1 / 2\<rfloor>" by (simp add: le_floor_iff)
  then show "createFlowFieldFromData settings
      \<lparr> data = [Fin 1, Fin 0], columns = 1, rows = 1, cellSize = Fin 1 \<rparr> (Fin x1) (Fin 0) = (Fin 0, Fin 0)"
    unfolding createFlowFieldFromData_def by (simp add: Let_def)
qed

lemma trace_single:
  "length (trace settings (createFlowFieldFromData settings
      \<lparr> data = [Fin 1, Fin 0], columns = 1, rows = 1, cellSize = Fin 1 \<rparr>) (Fin 0) (Fin 0) (Fin 1)) = 2"
proof -
  let ?f = "createFlowFieldFromData settings
      \<lparr> data = [Fin 1, Fin 0], columns = 1, rows = 1, cellSize = Fin 1 \<rparr>"
  obtain x1 t1 p where x1: "1 / 2 \<le> x1"
    and a: "trace settings ?f (Fin 0) (Fin 0) (Fin 1) =
       traceLoop settings ?f (Fin 1) 1 (Fin x1) (Fin 0) t1
         [\<lparr> position = (Fin 0 * Fin 1, Fin 0 * Fin 1), time = Fin 0 \<rparr>, \<lparr> position = p, time = t1 \<rparr>]"
    using trace_unit_start[of ?f "Fin 1", OF field_single(1)] by blast
  obtain s where s: "speedScale settings = Fin s"
    using settings_speedScale by blast
  obtain m where m: "minSpeedThreshold settings = Fin m" "0 < m"
    using settings_minSpeedThreshold by blast
  have "scaledSpeed settings ?f (Fin x1) (Fin 0) < minSpeedThreshold settings"
    unfolding scaledSpeed_def field_single(2)[OF x1] using m(2) by (simp add: s m(1))
  then have "traceLoop settings ?f (Fin 1) 1 (Fin x1) (Fin 0) t1
         [\<lparr> position = (Fin 0 * Fin 1, Fin 0 * Fin 1), time = Fin 0 \<rparr>, \<lparr> position = p, time = t1 \<rparr>] =
       [\<lparr> position = (Fin 0 * Fin 1, Fin 0 * Fin 1), time = Fin 0 \<rparr>, \<lparr> position = p, time = t1 \<rparr>]"
    by (rule traceLoop_stop)
  then show ?thesis unfolding a by simp
qed

subsection \<open>The two processors\<close>

lemma completeMesh_arrays:
  "\<lparr> vertexData = Float32ArrayOver (vertexData (completeMesh rand g ls)),
     indexData = Uint32ArrayOver (indexData (completeMesh rand g ls)) \<rparr> = completeMesh rand g ls"
  by (simp add: Float32ArrayOver_def Uint32ArrayOver_def)

lemma WorkerFlowProcessor_char:
  "WorkerFlowProcessor_createStreamLinesMesh ab envW cfg rand gLines gMesh flowData =
     (if ab \<or> (\<exists>r<restsTaken envW cfg (performanceNow envW 0) 1 (linesPerVisualization cfg).
                  signalAborted envW r)
      then Inl AbortError
      else Inr (completeMesh rand gMesh
                 (getStreamLines cfg rand gLines (createFlowFieldFromData cfg flowData)
                    (columns flowData) (rows flowData) (cellSize flowData))))"
proof -
  have fd: "\<lparr> data = Float32ArrayOver (data flowData), columns = columns flowData,
        rows = rows flowData, cellSize = cellSize flowData \<rparr> = flowData"
    by (simp add: Float32ArrayOver_def)
  show ?thesis
    unfolding WorkerFlowProcessor_createStreamLinesMesh_def workerCreateStreamLinesMesh_def
      throwIfAborted_def
    by (simp add: fd createStreamLinesMesh_char completeMesh_arrays)
qed

text \<open>
  Claim C8. For the same grid, settings and generators, a mesh that the local processor
  returns and a mesh that the worker processor returns are equal, whatever the clocks and
  the signals of the two contexts are: the mesh depends on the grid, the settings and the
  draws only. When no signal is aborted both processors return a mesh, the same one.
  (Numbers are compared as values of the model; the worker side is the pipeline of the
  spec.)
\<close>
theorem processors_same_mesh:
  "(MainFlowProcessor_createStreamLinesMesh envM cfg rand gLines gMesh flowData = Inr m1
      \<and> WorkerFlowProcessor_createStreamLinesMesh ab envW cfg rand gLines gMesh flowData = Inr m2
     \<longrightarrow> m1 = m2)
   \<and> ((\<forall>r. \<not> signalAborted envM r) \<and> (\<forall>r. \<not> signalAborted envW r) \<and> \<not> ab
     \<longrightarrow> (\<exists>m. MainFlowProcessor_createStreamLinesMesh envM cfg rand gLines gMesh flowData = Inr m
            \<and> WorkerFlowProcessor_createStreamLinesMesh ab envW cfg rand gLines gMesh flowData = Inr m))"
proof (intro conjI impI)
  assume "MainFlowProcessor_createStreamLinesMesh envM cfg rand gLines gMesh flowData = Inr m1
      \<and> WorkerFlowProcessor_createStreamLinesMesh ab envW cfg rand gLines gMesh flowData = Inr m2"
  then show "m1 = m2"
    unfolding MainFlowProcessor_createStreamLinesMesh_def WorkerFlowProcessor_char
      createStreamLinesMesh_char
    by (auto split: if_splits)
next
  assume "(\<forall>r. \<not> signalAborted envM r) \<and> (\<forall>r. \<not> signalAborted envW r) \<and> \<not> ab"
  then show "\<exists>m. MainFlowProcessor_createStreamLinesMesh envM cfg rand gLines gMesh flowData = Inr m
            \<and> WorkerFlowProcessor_createStreamLinesMesh ab envW cfg rand gLines gMesh flowData = Inr m"
    unfolding MainFlowProcessor_createStreamLinesMesh_def WorkerFlowProcessor_char
      createStreamLinesMesh_char
    by simp
qed

text \<open>
  A grid of one cell with the velocity \<open>(1, 0)\<close> and a generator that always draws 0:
  every line starts in the cell, leaves it with its first step and has two vertices, and
  the mesh of the 4000 lines has 4000 segments.
\<close>

theorem processors_same_mesh_witness:
  "\<exists>m. MainFlowProcessor_createStreamLinesMesh
          \<lparr> performanceNow = (\<lambda>k. Fin (1000 * real k)), signalAborted = (\<lambda>k. False) \<rparr>
          settings (\<lambda>g::unit. (Fin 0, g)) () ()
          \<lparr> data = [Fin 1, Fin 0], columns = 1, rows = 1, cellSize = Fin 1 \<rparr> = Inr m
     \<and> WorkerFlowProcessor_createStreamLinesMesh False
          \<lparr> performanceNow = (\<lambda>k. Fin 0), signalAborted = (\<lambda>k. False) \<rparr>
          settings (\<lambda>g::unit. (Fin 0, g)) () ()
          \<lparr> data = [Fin 1, Fin 0], columns = 1, rows = 1, cellSize = Fin 1 \<rparr> = Inr m
     \<and> length (vertexData m) = 144000 \<and> length (indexData m) = 24000"
proof -
  let ?envM = "\<lparr> performanceNow = (\<lambda>k. Fin (1000 * real k)), signalAborted = (\<lambda>k. False) \<rparr>"
  let ?envW = "\<lparr> performanceNow = (\<lambda>k. Fin 0), signalAborted = (\<lambda>k. False) \<rparr>"
  let ?rand = "\<lambda>g::unit. (Fin 0, g)"
  let ?fd = "\<lparr> data = [Fin 1, Fin 0], columns = 1, rows = 1, cellSize = Fin 1 \<rparr>"
  let ?f = "createFlowFieldFromData settings ?fd"
  let ?N = "linesPerVisualization settings"
  let ?lines = "getStreamLines settings ?rand () ?f (columns ?fd) (rows ?fd) (cellSize ?fd)"
  have h: "(\<forall>r. \<not> signalAborted ?envM r) \<and> (\<forall>r. \<not> signalAborted ?envW r) \<and> \<not> False"
    by simp
  from processors_same_mesh[of ?envM settings ?rand "()" "()" ?fd _ False ?envW] h
  obtain m where m: "MainFlowProcessor_createStreamLinesMesh ?envM settings ?rand () () ?fd = Inr m"
    "WorkerFlowProcessor_createStreamLinesMesh False ?envW settings ?rand () () ?fd = Inr m"
    by blast
  have cm: "m = completeMesh ?rand () ?lines"
    using m(1) unfolding MainFlowProcessor_createStreamLinesMesh_def createStreamLinesMesh_char
    by simp
  have d: "set (draws ?rand g n) \<subseteq> {Fin 0}" for g n
    by (induction n arbitrary: g) auto
  have dn: "draws ?rand () (2 * ?N) ! k = Fin 0" if "k < 2 * ?N" for k
  proof -
    have "draws ?rand () (2 * ?N) ! k \<in> set (draws ?rand () (2 * ?N))"
      by (rule nth_mem) (simp add: length_draws that)
    then show ?thesis using d[of "()" "2 * ?N"] by blast
  qed
  have seeds: "\<forall>p\<in>set (seedPoints ?rand () 1 1 ?N). p = (Fin 0, Fin 0)"
    unfolding seedPoints_def using dn by auto
  have eq: "?lines = map (\<lambda>(x0, y0). trace settings ?f x0 y0 (Fin 1)) (seedPoints ?rand () 1 1 ?N)"
    by (simp add: getStreamLines_def streamLinesLoop_eq)
  have two: "\<forall>l\<in>set ?lines. length l = 2"
    unfolding eq using seeds trace_single by auto
  have len: "length ?lines = ?N"
    unfolding eq by (simp add: length_seedPoints)
  have ne: "\<forall>l\<in>set ?lines. l \<noteq> []" using two by auto
  have sc: "segmentCount ?lines = ?N"
    using segmentCount_pairs[OF two] len by simp
  have n: "?N = 4000" by (simp add: settings_def)
  have "length (vertexData m) = 36 * ?N" "length (indexData m) = 6 * ?N"
    using completeMesh_lengths[OF ne, of ?rand "()"] unfolding cm sc by simp_all
  then have "length (vertexData m) = 144000" "length (indexData m) = 24000"
    unfolding n by simp_all
  with m show ?thesis by blast
qed

end
